theory Spec2Isabelle
  imports Main "HOL-Library.Multiset" "HOL-Library.Product_Lexorder" "HOL-Library.AList"
begin

section \<open>JavaScript numbers as they reach the position column\<close>

text \<open>
  The engine coerces every incoming position with \<^verbatim>\<open>Number(...)\<close>. The result is a
  finite number, \<^verbatim>\<open>NaN\<close> or one of the two infinities. Finite numbers are modelled as
  integers (the column is declared \<^verbatim>\<open>INTEGER\<close>). A JavaScript number is a double:
  it holds every integer below \<open>2^53\<close> in magnitude exactly, and arithmetic on such
  integers is exact as long as the result stays in that range; beyond it a sum is rounded to
  the nearest double, which the integers of this model do not follow. Ids are integers
  throughout.
\<close>

datatype jsnum = NaN | NegInf | Fin int | PosInf

text \<open>\<^verbatim>\<open>!x\<close> on a number: true for \<^verbatim>\<open>NaN\<close> and \<^verbatim>\<open>0\<close> only.\<close>

definition js_not :: "jsnum \<Rightarrow> bool" where
  "js_not x = (x = NaN \<or> x = Fin 0)"

text \<open>\<^verbatim>\<open>x <= y\<close> on numbers: every comparison with \<^verbatim>\<open>NaN\<close> is false.\<close>

fun js_le :: "jsnum \<Rightarrow> jsnum \<Rightarrow> bool" where
  "js_le NaN y = False"
| "js_le x NaN = False"
| "js_le NegInf y = True"
| "js_le x PosInf = True"
| "js_le PosInf y = False"
| "js_le x NegInf = False"
| "js_le (Fin a) (Fin b) = (a \<le> b)"

text \<open>
  \<^verbatim>\<open>x + 1\<close> on numbers: an infinity and \<^verbatim>\<open>NaN\<close> stay what they are, and an
  integer gets its successor. That is the sum of the doubles for an integer below
  \<open>2^53\<close> in magnitude; from \<open>2^53\<close> on the sum of the doubles is rounded
  (\<open>2^53 + 1\<close> gives \<open>2^53\<close>) and is not this successor.
\<close>

fun js_succ :: "jsnum \<Rightarrow> jsnum" where
  "js_succ (Fin a) = Fin (a + 1)"
| "js_succ x = x"

text \<open>
  The order SQLite sorts a numeric column by (\<^verbatim>\<open>ORDER BY\<close>, \<^verbatim>\<open>MAX\<close>):
  \<^verbatim>\<open>NULL\<close> first (a bound \<^verbatim>\<open>NaN\<close> is stored as \<^verbatim>\<open>NULL\<close>), then
  \<^verbatim>\<open>-Inf\<close>, the finite numbers, \<^verbatim>\<open>+Inf\<close>.
\<close>

fun sql_rank :: "jsnum \<Rightarrow> int \<times> int" where
  "sql_rank NaN = (0, 0)"
| "sql_rank NegInf = (1, 0)"
| "sql_rank (Fin a) = (2, a)"
| "sql_rank PosInf = (3, 0)"

instantiation jsnum :: linorder
begin

definition less_eq_jsnum :: "jsnum \<Rightarrow> jsnum \<Rightarrow> bool" where
  "less_eq_jsnum a b = (sql_rank a \<le> sql_rank b)"

definition less_jsnum :: "jsnum \<Rightarrow> jsnum \<Rightarrow> bool" where
  "less_jsnum a b = (sql_rank a < sql_rank b)"

instance
proof
  fix x y z :: jsnum
  show "(x < y) = (x \<le> y \<and> \<not> y \<le> x)"
    unfolding less_eq_jsnum_def less_jsnum_def by (rule less_le_not_le)
  show "x \<le> x"
    unfolding less_eq_jsnum_def by simp
  show "x \<le> y \<Longrightarrow> y \<le> z \<Longrightarrow> x \<le> z"
    unfolding less_eq_jsnum_def by (rule order_trans)
  show "x \<le> y \<Longrightarrow> y \<le> x \<Longrightarrow> x = y"
    unfolding less_eq_jsnum_def by (cases x; cases y) auto
  show "x \<le> y \<or> y \<le> x"
    unfolding less_eq_jsnum_def by (rule linear)
qed

end

section \<open>The store\<close>

text \<open>The three tables of the schema created by \<^verbatim>\<open>getDb\<close>.\<close>

record todo =
  row_id :: int
  todo_text :: string
  completed :: bool
  is_empty :: bool
  parent_id :: "int option"
  is_indented :: bool
  position :: jsnum
  list_id :: int

record list_row =
  lid :: int
  name :: string
  created_at :: int
  updated_at :: int

record settings_row =
  title :: string
  dark_mode :: bool
  current_list_id :: "int option"

record db =
  todos :: "todo list"
  lists :: "list_row list"
  settings :: settings_row

text \<open>
  The messages the engine, the positions route and the client's fallback throw or send,
  a failed constraint of the schema (\<^verbatim>\<open>NOT NULL\<close>, a foreign key) as the driver
  reports it, and the \<^verbatim>\<open>TypeError\<close> of reading a property of \<^verbatim>\<open>undefined\<close>.
\<close>

datatype error =
    TodoNotFound
  | FirstTodoNotFound
  | TodoIdNotFound int
  | AllUpdatesSameList
  | OwnParent
  | ParentIdNotFound int
  | ParentSameList
  | ParentCycleDetected
  | ParentTodoNotFound
  | CannotSetParentToSelf
  | CyclicParentRelationship
  | CannotIndentFirst
  | ListNotFound
  | ArrayMustNotBeEmpty
  | DuplicateId int
  | DuplicatePosition int
  | SqliteConstraint
  | TypeError
  | TodoWithIdNotFound int

subsection \<open>Transactions\<close>

text \<open>
  What the function given to \<^verbatim>\<open>d.transaction\<close> does: it returns a result, leaving
  the store as its statements wrote it, or it throws.
\<close>

datatype 'a outcome = Returned 'a db | Threw error

text \<open>
  \<^verbatim>\<open>d.transaction(fn)\<close> of better-sqlite3, which \<^verbatim>\<open>withTxn\<close> wraps: commit when
  \<^verbatim>\<open>fn\<close> returns, roll back to the store before the call and rethrow when it throws.
\<close>

definition transaction :: "db \<Rightarrow> 'a outcome \<Rightarrow> db \<times> (error + 'a)" where
  "transaction d out = (case out of Returned v d' \<Rightarrow> (d', Inr v) | Threw e \<Rightarrow> (d, Inl e))"

definition withTxn :: "(db \<Rightarrow> 'b \<Rightarrow> 'a outcome) \<Rightarrow> db \<Rightarrow> 'b \<Rightarrow> db \<times> (error + 'a)" where
  "withTxn fn d args = transaction d (fn d args)"

subsection \<open>Statements\<close>

text \<open>\<^verbatim>\<open>SELECT ... FROM todos WHERE id=?\<close>\<close>

definition select_todo :: "todo list \<Rightarrow> int \<Rightarrow> todo option" where
  "select_todo ts i = find (\<lambda>r. row_id r = i) ts"

text \<open>\<^verbatim>\<open>UPDATE todos SET ... WHERE id=?\<close>\<close>

definition update_todo :: "todo list \<Rightarrow> int \<Rightarrow> (todo \<Rightarrow> todo) \<Rightarrow> todo list" where
  "update_todo ts i f = map (\<lambda>r. if row_id r = i then f r else r) ts"

text \<open>
  \<^verbatim>\<open>DELETE FROM todos WHERE id IN (...)\<close>, with the action of the foreign key
  \<^verbatim>\<open>parent_id REFERENCES todos(id) ON DELETE SET NULL\<close> on the rows that stay.
\<close>

definition delete_todos :: "todo list \<Rightarrow> int list \<Rightarrow> todo list" where
  "delete_todos ts ids =
     map (\<lambda>r. case parent_id r of
                 None \<Rightarrow> r
               | Some p \<Rightarrow> if p \<in> set ids then r\<lparr>parent_id := None\<rparr> else r)
         (filter (\<lambda>r. row_id r \<notin> set ids) ts)"

text \<open>\<^verbatim>\<open>SELECT id FROM todos WHERE list_id=? ORDER BY position ASC, id ASC\<close>\<close>

definition todos_of_list :: "todo list \<Rightarrow> int \<Rightarrow> todo list" where
  "todos_of_list ts l = filter (\<lambda>r. list_id r = l) ts"

definition order_key :: "todo \<Rightarrow> jsnum \<times> int" where
  "order_key r = (position r, row_id r)"

definition ordered_ids :: "todo list \<Rightarrow> int \<Rightarrow> int list" where
  "ordered_ids ts l = map row_id (sort_key order_key (todos_of_list ts l))"

section \<open>compactPositionsTx\<close>

text \<open>The loop \<^verbatim>\<open>for (const r of rows) upd.run(pos++, r.id)\<close>.\<close>

fun renumber :: "todo list \<Rightarrow> int \<Rightarrow> int list \<Rightarrow> todo list" where
  "renumber ts pos [] = ts"
| "renumber ts pos (i # rows) =
     renumber (update_todo ts i (\<lambda>r. r\<lparr>position := Fin pos\<rparr>)) (pos + 1) rows"

definition compactPositionsTx :: "db \<Rightarrow> int \<Rightarrow> db" where
  "compactPositionsTx d listId = d\<lparr>todos := renumber (todos d) 1 (ordered_ids (todos d) listId)\<rparr>"

section \<open>createTodo\<close>

text \<open>
  The payload after the route has built it. An absent \<^verbatim>\<open>position\<close> is
  \<^verbatim>\<open>undefined\<close>, which \<^verbatim>\<open>Number\<close> turns into \<^verbatim>\<open>NaN\<close>.
\<close>

record create_payload =
  c_listId :: "int option"
  c_text :: string
  c_completed :: bool
  c_isEmpty :: bool
  c_parentId :: "int option"
  c_position :: "jsnum option"

definition to_Number :: "jsnum option \<Rightarrow> jsnum" where
  "to_Number v = (case v of None \<Rightarrow> NaN | Some x \<Rightarrow> x)"

text \<open>
  \<^verbatim>\<open>text.trim() === ''\<close>. A text is modelled by its UTF-8 bytes, as the column stores
  it. \<^verbatim>\<open>trim\<close> strips the white space and the line terminators of ECMAScript:
  U+0009 to U+000D and U+0020 (one byte each), U+00A0 (two bytes), and U+1680, U+2000 to
  U+200A, U+2028, U+2029, U+202F, U+205F, U+3000 and U+FEFF (three bytes each).
\<close>

definition white_space1 :: "char list" where
  "white_space1 = [CHR 0x09, CHR 0x0A, CHR 0x0B, CHR 0x0C, CHR 0x0D, CHR 0x20]"

definition white_space3 :: "(char \<times> char \<times> char) list" where
  "white_space3 =
     [(CHR 0xE1, CHR 0x9A, CHR 0x80),
      (CHR 0xE2, CHR 0x80, CHR 0x80), (CHR 0xE2, CHR 0x80, CHR 0x81),
      (CHR 0xE2, CHR 0x80, CHR 0x82), (CHR 0xE2, CHR 0x80, CHR 0x83),
      (CHR 0xE2, CHR 0x80, CHR 0x84), (CHR 0xE2, CHR 0x80, CHR 0x85),
      (CHR 0xE2, CHR 0x80, CHR 0x86), (CHR 0xE2, CHR 0x80, CHR 0x87),
      (CHR 0xE2, CHR 0x80, CHR 0x88), (CHR 0xE2, CHR 0x80, CHR 0x89),
      (CHR 0xE2, CHR 0x80, CHR 0x8A),
      (CHR 0xE2, CHR 0x80, CHR 0xA8), (CHR 0xE2, CHR 0x80, CHR 0xA9),
      (CHR 0xE2, CHR 0x80, CHR 0xAF), (CHR 0xE2, CHR 0x81, CHR 0x9F),
      (CHR 0xE3, CHR 0x80, CHR 0x80), (CHR 0xEF, CHR 0xBB, CHR 0xBF)]"

fun js_blank :: "string \<Rightarrow> bool" where
  "js_blank [] = True"
| "js_blank [c] = (c \<in> set white_space1)"
| "js_blank [c, c1] =
     (if c \<in> set white_space1 then js_blank [c1] else (c, c1) = (CHR 0xC2, CHR 0xA0))"
| "js_blank (c # c1 # c2 # s) =
     (if c \<in> set white_space1 then js_blank (c1 # c2 # s)
      else if (c, c1) = (CHR 0xC2, CHR 0xA0) then js_blank (c2 # s)
      else (c, c1, c2) \<in> set white_space3 \<and> js_blank s)"

text \<open>
  \<^verbatim>\<open>let listId = Number(payload?.listId); if (!listId) { ...
  listId = Number(s.current_list_id) || 1 }\<close>
\<close>

definition resolve_listId :: "db \<Rightarrow> int option \<Rightarrow> int" where
  "resolve_listId d l =
     (let fallback = (case current_list_id (settings d) of
                        None \<Rightarrow> 1
                      | Some c \<Rightarrow> if c = 0 then 1 else c)
      in case l of None \<Rightarrow> fallback | Some n \<Rightarrow> if n = 0 then fallback else n)"

text \<open>
  \<^verbatim>\<open>SELECT COALESCE(MAX(position), 0) as maxPos FROM todos WHERE list_id=?\<close>;
  \<^verbatim>\<open>MAX\<close> skips \<^verbatim>\<open>NULL\<close>.
\<close>

definition max_position :: "todo list \<Rightarrow> int \<Rightarrow> jsnum" where
  "max_position ts l =
     (case filter (\<lambda>p. p \<noteq> NaN) (map position (todos_of_list ts l)) of
        [] \<Rightarrow> Fin 0
      | p # ps \<Rightarrow> fold max ps p)"

text \<open>\<^verbatim>\<open>info.lastInsertRowid\<close>: one more than the largest rowid of the table.\<close>

definition next_rowid :: "todo list \<Rightarrow> int" where
  "next_rowid ts = (case map row_id ts of [] \<Rightarrow> 1 | i # rest \<Rightarrow> fold max rest i + 1)"

definition createTodo_tx :: "db \<Rightarrow> create_payload \<Rightarrow> todo option outcome" where
  "createTodo_tx d payload =
     (let listId = resolve_listId d (c_listId payload);
          txt0 = c_text payload;
          isEmpty = (c_isEmpty payload \<or> js_blank txt0);
          parentId = c_parentId payload;
          parent_error =
            (case parentId of
               None \<Rightarrow> None
             | Some pid \<Rightarrow>
                 (case select_todo (todos d) pid of
                    None \<Rightarrow> Some ParentTodoNotFound
                  | Some p \<Rightarrow> if list_id p \<noteq> listId then Some ParentSameList else None));
          isIndented = (parentId \<noteq> None);
          position0 = to_Number (c_position payload);
          position1 =
            (if js_not position0 \<or> js_le position0 (Fin 0)
             then js_succ (max_position (todos d) listId)
             else position0)
      in case parent_error of
           Some e \<Rightarrow> Threw e
         | None \<Rightarrow>
             if parentId \<noteq> None \<and> position1 = Fin 1 then Threw CannotIndentFirst
             else if position1 = NaN \<or> listId \<notin> lid ` set (lists d) then Threw SqliteConstraint
             else
               let new_id = next_rowid (todos d);
                   ts' = todos d @
                     [\<lparr>row_id = new_id, todo_text = txt0, completed = c_completed payload,
                       is_empty = isEmpty, parent_id = parentId, is_indented = isIndented,
                       position = position1, list_id = listId\<rparr>]
               in Returned (select_todo ts' new_id) (d\<lparr>todos := ts'\<rparr>))"

definition createTodo :: "db \<Rightarrow> create_payload \<Rightarrow> db \<times> (error + todo option)" where
  "createTodo d input = transaction d (createTodo_tx d input)"

section \<open>deleteTodo\<close>

text \<open>\<^verbatim>\<open>SELECT t.id FROM todos t JOIN cte ON t.parent_id = cte.id\<close>, for one row of the cte.\<close>

definition children :: "todo list \<Rightarrow> int \<Rightarrow> int list" where
  "children ts x = map row_id (filter (\<lambda>t. parent_id t = Some x) ts)"

text \<open>
  The recursive common table expression with \<^verbatim>\<open>UNION ALL\<close>: SQLite takes one row from
  a queue, emits it and appends the rows the recursive select gives for it; nothing is
  removed as a duplicate, so the query does not end on a cycle. The fuel bounds the number
  of rows taken; \<open>None\<close> is a query that has not ended.
\<close>

fun recursive_cte :: "nat \<Rightarrow> todo list \<Rightarrow> int list \<Rightarrow> int list option" where
  "recursive_cte 0 ts queue = None"
| "recursive_cte (Suc n) ts [] = Some []"
| "recursive_cte (Suc n) ts (x # queue) =
     map_option ((#) x) (recursive_cte n ts (queue @ children ts x))"

record delete_result =
  deletedIds :: "int list"
  cascaded :: bool
  del_listId :: int
  liftedIds :: "int list"

definition lift_todos :: "todo list \<Rightarrow> int list \<Rightarrow> todo list" where
  "lift_todos ts descendants =
     fold (\<lambda>did acc. update_todo acc did (\<lambda>r. r\<lparr>parent_id := None, is_indented := False\<rparr>))
          descendants ts"

definition deleteTodo_tx :: "nat \<Rightarrow> db \<Rightarrow> int \<Rightarrow> bool \<Rightarrow> delete_result outcome option" where
  "deleteTodo_tx fuel d tid cascadeFlag =
     (case select_todo (todos d) tid of
        None \<Rightarrow> Some (Threw TodoNotFound)
      | Some target \<Rightarrow>
          (case recursive_cte fuel (todos d) [tid] of
             None \<Rightarrow> None
           | Some cte \<Rightarrow>
               let listId = list_id target;
                   descendants = filter (\<lambda>i. i \<noteq> tid) cte
               in if cascadeFlag then
                    (case recursive_cte fuel (todos d) [tid] of
                       None \<Rightarrow> None
                     | Some del \<Rightarrow>
                         Some (Returned
                           \<lparr>deletedIds = tid # descendants, cascaded = True,
                             del_listId = listId, liftedIds = []\<rparr>
                           (compactPositionsTx (d\<lparr>todos := delete_todos (todos d) del\<rparr>) listId)))
                  else
                    Some (Returned
                      \<lparr>deletedIds = [tid], cascaded = False,
                        del_listId = listId, liftedIds = descendants\<rparr>
                      (compactPositionsTx
                         (d\<lparr>todos := delete_todos (lift_todos (todos d) descendants) [tid]\<rparr>)
                         listId))))"

text \<open>\<open>opts\<close> is the \<^verbatim>\<open>cascade\<close> property, \<open>None\<close> when there is none.\<close>

definition deleteTodo ::
  "nat \<Rightarrow> db \<Rightarrow> int \<Rightarrow> bool option \<Rightarrow> (db \<times> (error + delete_result)) option" where
  "deleteTodo fuel d tid opts =
     (let cascadeFlag = (case opts of None \<Rightarrow> True | Some c \<Rightarrow> c)
      in map_option (transaction d) (deleteTodo_tx fuel d tid cascadeFlag))"

section \<open>updateTodoPositions\<close>

text \<open>
  One entry of the batch. The route and the engine both refuse an entry whose id or position
  is not a finite number before they look at anything else; entries are modelled after that
  check, with an integer id and position.
\<close>

record upd =
  u_id :: int
  u_position :: int
  u_parentId :: "int option"

datatype bulk_result = NoUpdates | Updated nat int

text \<open>
  \<^verbatim>\<open>proposed\<close> is a JavaScript \<^verbatim>\<open>Map\<close>: setting a key that is present replaces what
  it maps to in place, a new key goes to the end, and iteration follows that order.
\<close>

type_synonym proposed = "(int \<times> int \<times> int option) list"

fun build_proposed :: "todo list \<Rightarrow> int \<Rightarrow> upd list \<Rightarrow> proposed \<Rightarrow> error + proposed" where
  "build_proposed ts listId [] proposed = Inr proposed"
| "build_proposed ts listId (r # rows) proposed =
     (case select_todo ts (u_id r) of
        None \<Rightarrow> Inl (TodoIdNotFound (u_id r))
      | Some meta \<Rightarrow>
          if list_id meta \<noteq> listId then Inl AllUpdatesSameList
          else if u_parentId r = Some (u_id r) then Inl OwnParent
          else build_proposed ts listId rows
                 (AList.update (u_id r) (u_position r, u_parentId r) proposed))"

definition getParent :: "todo list \<Rightarrow> proposed \<Rightarrow> int \<Rightarrow> int option" where
  "getParent ts proposed i =
     (case map_of proposed i of
        Some p \<Rightarrow> snd p
      | None \<Rightarrow> (case select_todo ts i of Some rec \<Rightarrow> parent_id rec | None \<Rightarrow> None))"

text \<open>
  \<^verbatim>\<open>while (cur != null) { if (seen.has(cur)) throw ...; seen.add(cur); cur = getParent(cur) }\<close>:
  \<open>True\<close> when the loop throws.
\<close>

function cycle_check :: "todo list \<Rightarrow> proposed \<Rightarrow> int set \<Rightarrow> int option \<Rightarrow> bool" where
  "cycle_check ts proposed seen None = False"
| "cycle_check ts proposed seen (Some cur) =
     (if cur \<in> seen then True
      else cycle_check ts proposed (insert cur seen) (getParent ts proposed cur))"
  by pat_completeness auto

termination cycle_check
proof (relation "measures
    [\<lambda>(ts, proposed, seen, cur). card ((fst ` set proposed \<union> row_id ` set ts) - seen),
     \<lambda>(ts, proposed, seen, cur). case cur of None \<Rightarrow> 0 | Some c \<Rightarrow> Suc 0]")
  show "wf (measures
    [\<lambda>(ts, proposed, seen, cur). card ((fst ` set proposed \<union> row_id ` set ts) - seen),
     \<lambda>(ts, proposed, seen, cur). case cur of None \<Rightarrow> 0 | Some c \<Rightarrow> Suc 0])"
    by simp
next
  fix ts :: "todo list" and proposed :: proposed and seen :: "int set" and cur :: int
  assume notin: "cur \<notin> seen"
  let ?K = "fst ` set proposed \<union> row_id ` set ts"
  show "((ts, proposed, insert cur seen, getParent ts proposed cur), ts, proposed, seen, Some cur)
        \<in> measures
    [\<lambda>(ts, proposed, seen, cur). card ((fst ` set proposed \<union> row_id ` set ts) - seen),
     \<lambda>(ts, proposed, seen, cur). case cur of None \<Rightarrow> 0 | Some c \<Rightarrow> Suc 0]"
  proof (cases "cur \<in> ?K")
    case True
    have "?K - insert cur seen \<subset> ?K - seen"
      using True notin by auto
    moreover have "finite (?K - seen)" by simp
    ultimately have "card (?K - insert cur seen) < card (?K - seen)"
      by (rule psubset_card_mono[rotated])
    then show ?thesis by simp
  next
    case False
    have known: "i \<in> ?K" if "getParent ts proposed i = Some p" for i p
      using that unfolding getParent_def select_todo_def
      by (auto split: option.splits simp: find_Some_iff dest!: map_of_SomeD intro: rev_image_eqI)
    from False have "getParent ts proposed cur = None"
      using known[of cur] by (cases "getParent ts proposed cur") auto
    moreover have "?K - insert cur seen = ?K - seen"
      using False by auto
    ultimately show ?thesis by simp
  qed
qed

text \<open>The second loop: the parent of every proposed entry exists, is in the list, closes no cycle.\<close>

fun validate_parents :: "todo list \<Rightarrow> int \<Rightarrow> proposed \<Rightarrow> proposed \<Rightarrow> error option" where
  "validate_parents ts listId proposed [] = None"
| "validate_parents ts listId proposed ((i, pos, pid) # rest) =
     (case pid of
        None \<Rightarrow> validate_parents ts listId proposed rest
      | Some p \<Rightarrow>
          (case select_todo ts p of
             None \<Rightarrow> Some (ParentIdNotFound p)
           | Some meta \<Rightarrow>
               if list_id meta \<noteq> listId then Some ParentSameList
               else if cycle_check ts proposed {i} (Some p) then Some ParentCycleDetected
               else validate_parents ts listId proposed rest))"

text \<open>The third loop: \<^verbatim>\<open>UPDATE todos SET position=?, parent_id=?, is_indented=? WHERE id=?\<close>.\<close>

definition apply_proposed :: "todo list \<Rightarrow> proposed \<Rightarrow> todo list" where
  "apply_proposed ts proposed =
     fold (\<lambda>(i, pos, pid) acc.
             update_todo acc i
               (\<lambda>r. r\<lparr>position := Fin pos, parent_id := pid, is_indented := (pid \<noteq> None)\<rparr>))
          proposed ts"

definition updateTodoPositions_tx :: "db \<Rightarrow> upd list \<Rightarrow> bulk_result outcome" where
  "updateTodoPositions_tx d rows =
     (case rows of
        [] \<Rightarrow> Threw TypeError
      | r0 # _ \<Rightarrow>
          (case select_todo (todos d) (u_id r0) of
             None \<Rightarrow> Threw FirstTodoNotFound
           | Some first \<Rightarrow>
               let listId = list_id first
               in case build_proposed (todos d) listId rows [] of
                    Inl e \<Rightarrow> Threw e
                  | Inr proposed \<Rightarrow>
                      (case validate_parents (todos d) listId proposed proposed of
                         Some e \<Rightarrow> Threw e
                       | None \<Rightarrow>
                           Returned (Updated (length rows) listId)
                             (compactPositionsTx
                                (d\<lparr>todos := apply_proposed (todos d) proposed\<rparr>) listId))))"

definition updateTodoPositions :: "db \<Rightarrow> upd list \<Rightarrow> db \<times> (error + bulk_result)" where
  "updateTodoPositions d updates =
     (if updates = [] then (d, Inr NoUpdates) else withTxn updateTodoPositions_tx d updates)"

subsection \<open>The route in front of it\<close>

text \<open>
  \<^verbatim>\<open>PATCH /api/todos/positions\<close> in \<^verbatim>\<open>registerApi\<close>, the spec's bulkReposition: the
  shallow validation of the body, the check of the entry with position 1, then the engine.
\<close>

fun shallow_validation :: "upd list \<Rightarrow> int set \<Rightarrow> int set \<Rightarrow> error option" where
  "shallow_validation [] ids positions = None"
| "shallow_validation (row # body) ids positions =
     (if u_id row \<in> ids then Some (DuplicateId (u_id row))
      else if u_position row \<in> positions then Some (DuplicatePosition (u_position row))
      else shallow_validation body (insert (u_id row) ids) (insert (u_position row) positions))"

definition patch_todos_positions :: "db \<Rightarrow> upd list \<Rightarrow> db \<times> (error + bulk_result)" where
  "patch_todos_positions d body =
     (if body = [] then (d, Inl ArrayMustNotBeEmpty)
      else case shallow_validation body {} {} of
             Some e \<Rightarrow> (d, Inl e)
           | None \<Rightarrow>
               (case find (\<lambda>r. u_position r = 1) body of
                  None \<Rightarrow> updateTodoPositions d body
                | Some top_row \<Rightarrow>
                    if u_parentId top_row \<noteq> None then (d, Inl CannotIndentFirst)
                    else updateTodoPositions d body))"

section \<open>updateTodo\<close>

text \<open>
  The patch, one optional field for each property the engine probes with
  \<^verbatim>\<open>hasOwnProperty\<close>; the inner \<open>None\<close> of \<open>p_parentId\<close> and \<open>p_position\<close> is
  a property that is present and \<^verbatim>\<open>null\<close>. \<open>p_listId\<close> is a property the engine never
  reads.
\<close>

record patch =
  p_text :: "string option"
  p_completed :: "bool option"
  p_isEmpty :: "bool option"
  p_parentId :: "int option option"
  p_isIndented :: "bool option"
  p_position :: "jsnum option option"
  p_listId :: "int option"

text \<open>
  The cycle guard \<^verbatim>\<open>while (cur && cur.parent_id != null) { ... }\<close>: \<open>Some True\<close> when
  it throws, \<open>Some False\<close> when the loop ends, \<open>None\<close> when it has not ended after
  \<open>fuel\<close> tests of the loop condition.
\<close>

fun ancestor_walk :: "nat \<Rightarrow> todo list \<Rightarrow> int \<Rightarrow> todo \<Rightarrow> bool option" where
  "ancestor_walk 0 ts tid cur = None"
| "ancestor_walk (Suc n) ts tid cur =
     (case parent_id cur of
        None \<Rightarrow> Some False
      | Some p \<Rightarrow>
          if p = tid then Some True
          else (case select_todo ts p of
                  None \<Rightarrow> Some False
                | Some nxt \<Rightarrow> ancestor_walk n ts tid nxt))"

definition validate_parent ::
  "nat \<Rightarrow> todo list \<Rightarrow> int \<Rightarrow> todo \<Rightarrow> int option \<Rightarrow> error option option" where
  "validate_parent fuel ts tid row targetParentId =
     (case targetParentId of
        None \<Rightarrow> Some None
      | Some pid \<Rightarrow>
          if pid = tid then Some (Some CannotSetParentToSelf)
          else (case select_todo ts pid of
                  None \<Rightarrow> Some (Some ParentTodoNotFound)
                | Some pr \<Rightarrow>
                    if list_id pr \<noteq> list_id row then Some (Some ParentSameList)
                    else map_option (\<lambda>thrown. if thrown then Some CyclicParentRelationship else None)
                           (ancestor_walk fuel ts tid pr)))"

text \<open>\<^verbatim>\<open>sets.length\<close> is zero: no allowed property gave a set clause.\<close>

definition no_sets :: "patch \<Rightarrow> bool" where
  "no_sets p =
     (p_text p = None \<and> p_completed p = None \<and> p_isEmpty p = None \<and> p_parentId p = None \<and>
      p_isIndented p = None \<and> (p_position p = None \<or> p_position p = Some None))"

text \<open>\<^verbatim>\<open>UPDATE todos SET ${sets.join(', ')} WHERE id=?\<close> on the row it names.\<close>

definition set_clauses :: "patch \<Rightarrow> int option \<Rightarrow> todo \<Rightarrow> todo" where
  "set_clauses p targetParentId r =
     r\<lparr>todo_text := (case p_text p of None \<Rightarrow> todo_text r | Some v \<Rightarrow> v),
       completed := (case p_completed p of None \<Rightarrow> completed r | Some v \<Rightarrow> v),
       is_empty := (case p_isEmpty p of None \<Rightarrow> is_empty r | Some v \<Rightarrow> v),
       parent_id := (case p_parentId p of None \<Rightarrow> parent_id r | Some v \<Rightarrow> v),
       is_indented :=
         (if p_parentId p \<noteq> None \<or> p_isIndented p \<noteq> None then targetParentId \<noteq> None
          else is_indented r),
       position := (case p_position p of Some (Some v) \<Rightarrow> v | _ \<Rightarrow> position r)\<rparr>"

definition updateTodo_tx :: "nat \<Rightarrow> db \<Rightarrow> int \<Rightarrow> patch \<Rightarrow> todo option outcome option" where
  "updateTodo_tx fuel d tid p =
     (case select_todo (todos d) tid of
        None \<Rightarrow> Some (Threw TodoNotFound)
      | Some row \<Rightarrow>
          let targetParentId = (case p_parentId p of None \<Rightarrow> parent_id row | Some v \<Rightarrow> v);
              targetPosition =
                (case p_position p of
                   None \<Rightarrow> position row
                 | Some None \<Rightarrow> Fin 0
                 | Some (Some v) \<Rightarrow> v)
          in case validate_parent fuel (todos d) tid row targetParentId of
               None \<Rightarrow> None
             | Some (Some e) \<Rightarrow> Some (Threw e)
             | Some None \<Rightarrow>
                 if targetParentId \<noteq> None \<and> targetPosition = Fin 1 then Some (Threw CannotIndentFirst)
                 else if no_sets p then Some (Returned (select_todo (todos d) tid) d)
                 else if p_position p = Some (Some NaN) then Some (Threw SqliteConstraint)
                 else
                   let ts' = update_todo (todos d) tid (set_clauses p targetParentId)
                   in Some (Returned (select_todo ts' tid) (d\<lparr>todos := ts'\<rparr>)))"

definition updateTodo ::
  "nat \<Rightarrow> db \<Rightarrow> int \<Rightarrow> patch \<Rightarrow> (db \<times> (error + todo option)) option" where
  "updateTodo fuel d tid p = map_option (transaction d) (updateTodo_tx fuel d tid p)"

section \<open>deleteList\<close>

text \<open>
  \<^verbatim>\<open>DELETE FROM lists WHERE id=?\<close> with the foreign keys of the schema: when a list
  goes, its todos go with it (\<^verbatim>\<open>ON DELETE CASCADE\<close>, and then
  \<^verbatim>\<open>ON DELETE SET NULL\<close> on the todos that had one of them as parent), and
  \<^verbatim>\<open>settings.current_list_id\<close> is set to \<^verbatim>\<open>NULL\<close> when it named the list.
\<close>

definition delete_list_row :: "db \<Rightarrow> int \<Rightarrow> db" where
  "delete_list_row d i =
     (if i \<in> lid ` set (lists d) then
        \<lparr>todos = delete_todos (todos d) (map row_id (todos_of_list (todos d) i)),
         lists = filter (\<lambda>l. lid l \<noteq> i) (lists d),
         settings =
           (if current_list_id (settings d) = Some i then (settings d)\<lparr>current_list_id := None\<rparr>
            else settings d)\<rparr>
      else d)"

text \<open>
  \<^verbatim>\<open>info.changes\<close> counts the rows of \<^verbatim>\<open>lists\<close> the statement deleted. The test
  \<^verbatim>\<open>cur?.current_list_id === lid\<close> reads the settings after the foreign key has acted.
\<close>

definition deleteList_tx :: "db \<Rightarrow> int \<Rightarrow> unit outcome" where
  "deleteList_tx d i =
     (let changes = length (filter (\<lambda>l. lid l = i) (lists d));
          d1 = delete_list_row d i
      in if changes = 0 then Threw ListNotFound
         else if current_list_id (settings d1) = Some i then
           let nextId = (case sort (map lid (lists d1)) of [] \<Rightarrow> None | a # _ \<Rightarrow> Some a)
           in Returned () (d1\<lparr>settings := (settings d1)\<lparr>current_list_id := nextId\<rparr>\<rparr>)
         else Returned () d1)"

definition deleteList :: "db \<Rightarrow> int \<Rightarrow> db \<times> (error + unit)" where
  "deleteList d i = transaction d (deleteList_tx d i)"

section \<open>The client's updateTodo when the API call fails\<close>

text \<open>
  \<^verbatim>\<open>src/db.js\<close> keeps a mirror of the todos in the browser. When the request fails,
  its \<^verbatim>\<open>updateTodo\<close> replaces the first todo of the mirror that has the id by
  \<^verbatim>\<open>{ ...original, ...todo, listId: original.listId }\<close>: whatever the two spreads give,
  the last property wins. \<open>spread\<close> stands for the two spreads.
\<close>

fun replace_first :: "(todo \<Rightarrow> bool) \<Rightarrow> (todo \<Rightarrow> todo) \<Rightarrow> todo list \<Rightarrow> todo list option" where
  "replace_first P f [] = None"
| "replace_first P f (t # ts) =
     (if P t then Some (f t # ts) else map_option ((#) t) (replace_first P f ts))"

definition fallback_updateTodo :: "todo list \<Rightarrow> int \<Rightarrow> (todo \<Rightarrow> todo) \<Rightarrow> error + todo list" where
  "fallback_updateTodo mirror i spread =
     (case replace_first (\<lambda>t. row_id t = i)
             (\<lambda>original. (spread original)\<lparr>list_id := list_id original\<rparr>) mirror of
        None \<Rightarrow> Inl (TodoWithIdNotFound i)
      | Some mirror' \<Rightarrow> Inr mirror')"

section \<open>Properties of a store\<close>

text \<open>
  The positions of the todos of list \<open>l\<close>, in ascending order, are exactly
  \<open>1, 2, ..., N\<close> for the \<open>N\<close> todos of the list.
\<close>

definition positions_contiguous :: "db \<Rightarrow> int \<Rightarrow> bool" where
  "positions_contiguous d l =
     (sort (map position (todos_of_list (todos d) l)) =
      map Fin [1..int (length (todos_of_list (todos d) l))])"

text \<open>
  What \<^verbatim>\<open>compactPositionsTx\<close> does to one row, given the ids the
  \<^verbatim>\<open>ORDER BY\<close> query returned: the row whose id is the \<open>k\<close>-th of them
  gets position \<open>k\<close>.
\<close>

definition compact_row :: "int list \<Rightarrow> todo \<Rightarrow> todo" where
  "compact_row ids r =
     (case map_of (zip ids [1..int (length ids)]) (row_id r) of
        None \<Rightarrow> r
      | Some p \<Rightarrow> r\<lparr>position := Fin p\<rparr>)"

text \<open>
  The number of rows of list \<open>l\<close> that come before row \<open>r\<close> when the list is read by
  position ascending, rows with the same position by id ascending.
\<close>

definition rows_before :: "todo list \<Rightarrow> int \<Rightarrow> todo \<Rightarrow> nat" where
  "rows_before ts l r =
     length (filter (\<lambda>q. list_id q = l \<and>
                         (position q < position r \<or> (position q = position r \<and> row_id q < row_id r)))
                    ts)"

text \<open>
  The parent relation of the table, as pairs of a child and its parent, and the direct and
  transitive descendants of a todo.
\<close>

definition parent_rel :: "todo list \<Rightarrow> (int \<times> int) set" where
  "parent_rel ts = {(c, p). \<exists>r \<in> set ts. row_id r = c \<and> parent_id r = Some p}"

definition descendants :: "todo list \<Rightarrow> int \<Rightarrow> int set" where
  "descendants ts t = {c. (c, t) \<in> (parent_rel ts)\<^sup>+}"

text \<open>
  Following the parent links from id \<open>i\<close> leads into a cycle: to an id that is among
  its own ancestors.
\<close>

definition chain_loops :: "todo list \<Rightarrow> int \<Rightarrow> bool" where
  "chain_loops ts i = (\<exists>x. (i, x) \<in> (parent_rel ts)\<^sup>* \<and> (x, x) \<in> (parent_rel ts)\<^sup>+)"

text \<open>A row after its parent link has been cleared, when its id is in \<open>D\<close>.\<close>

definition lifted :: "int set \<Rightarrow> todo \<Rightarrow> todo" where
  "lifted D r = (if row_id r \<in> D then r\<lparr>parent_id := None, is_indented := False\<rparr> else r)"

subsection \<open>The conditions on a batch, in the words of the specification\<close>







section \<open>Example stores\<close>

definition mk_todo :: "int \<Rightarrow> int \<Rightarrow> int option \<Rightarrow> jsnum \<Rightarrow> todo" where
  "mk_todo i l p pos =
     \<lparr>row_id = i, todo_text = ''item'', completed = False, is_empty = False, parent_id = p,
      is_indented = (p \<noteq> None), position = pos, list_id = l\<rparr>"

definition mk_db :: "todo list \<Rightarrow> db" where
  "mk_db ts =
     \<lparr>todos = ts,
      lists = [\<lparr>lid = 1, name = ''My Todo List'', created_at = 0, updated_at = 0\<rparr>,
               \<lparr>lid = 2, name = ''New List'', created_at = 1, updated_at = 1\<rparr>],
      settings = \<lparr>title = ''My Todo List'', dark_mode = False, current_list_id = Some 1\<rparr>\<rparr>"

text \<open>
  Three todos of list 1 out of order and one of list 2. Todos 3 and 2 have the same position,
  and the table has todo 3 before todo 2.
\<close>

definition db_unordered :: db where
  "db_unordered =
     mk_db [mk_todo 1 1 None (Fin 7), mk_todo 3 1 (Some 1) (Fin 3), mk_todo 2 1 None (Fin 3),
            mk_todo 4 2 None (Fin 9)]"

definition mk_payload :: "jsnum option \<Rightarrow> create_payload" where
  "mk_payload p =
     \<lparr>c_listId = Some 1, c_text = ''item'', c_completed = False, c_isEmpty = False,
      c_parentId = None, c_position = p\<rparr>"

definition db_two :: db where
  "db_two = mk_db [mk_todo 1 1 None (Fin 1), mk_todo 2 1 None (Fin 2)]"

definition db_indented_first :: db where
  "db_indented_first = mk_db [mk_todo 1 1 None (Fin 2), mk_todo 2 1 (Some 1) (Fin 1)]"

definition empty_patch :: patch where
  "empty_patch =
     \<lparr>p_text = None, p_completed = None, p_isEmpty = None, p_parentId = None,
      p_isIndented = None, p_position = None, p_listId = None\<rparr>"

definition db_two_lists :: db where
  "db_two_lists = mk_db [mk_todo 1 1 None (Fin 1), mk_todo 2 1 None (Fin 2), mk_todo 3 2 None (Fin 1)]"

definition patch_with_listId :: patch where
  "patch_with_listId =
     \<lparr>p_text = Some ''moved'', p_completed = None, p_isEmpty = None, p_parentId = Some (Some 1),
      p_isIndented = None, p_position = Some (Some (Fin 5)), p_listId = Some 2\<rparr>"


text \<open>
  Todo 2 is a child of todo 1 and todo 3 a child of todo 2. Todos 3 and 2 have the same
  position, and the table has todo 3 before todo 2. Todo 5 is in list 2.
\<close>

definition db_family :: db where
  "db_family =
     mk_db [mk_todo 1 1 None (Fin 1), mk_todo 3 1 (Some 2) (Fin 2), mk_todo 2 1 (Some 1) (Fin 2),
            mk_todo 4 1 None (Fin 4), mk_todo 5 2 None (Fin 9)]"

text \<open>Todos 2 and 3 are each other's parent.\<close>

definition db_cycle :: db where
  "db_cycle =
     mk_db [mk_todo 1 1 None (Fin 1), mk_todo 2 1 (Some 3) (Fin 2), mk_todo 3 1 (Some 2) (Fin 3)]"

section \<open>Lemmas about the statements and the compaction\<close>

lemma Fin_le_iff [simp]: "(Fin a \<le> Fin b) = (a \<le> b)"
  by (simp add: less_eq_jsnum_def)

lemma Fin_less_iff [simp]: "(Fin a < Fin b) = (a < b)"
  by (simp add: less_jsnum_def)

lemma select_todo_Some: "select_todo ts i = Some r \<Longrightarrow> r \<in> set ts \<and> row_id r = i"
  unfolding select_todo_def by (auto simp: find_Some_iff)

lemma select_todo_None: "(select_todo ts i = None) = (i \<notin> row_id ` set ts)"
  unfolding select_todo_def by (auto simp: find_None_iff)

lemma select_todo_distinct:
  "distinct (map row_id ts) \<Longrightarrow> r \<in> set ts \<Longrightarrow> select_todo ts (row_id r) = Some r"
  unfolding select_todo_def
  by (induction ts) (auto simp: rev_image_eqI)

lemma update_todo_ids [simp]:
  "(\<And>r. row_id (f r) = row_id r) \<Longrightarrow> map row_id (update_todo ts i f) = map row_id ts"
  unfolding update_todo_def by (induction ts) auto

lemma renumber_eq:
  "distinct ids \<Longrightarrow>
   renumber ts k ids =
     map (\<lambda>r. case map_of (zip ids [k..k + int (length ids) - 1]) (row_id r) of
                 None \<Rightarrow> r
               | Some p \<Rightarrow> r\<lparr>position := Fin p\<rparr>) ts"
proof (induction ids arbitrary: ts k)
  case Nil
  then show ?case by simp
next
  case (Cons i ids)
  have up: "[k..k + int (length (i # ids)) - 1] = k # [k + 1..k + 1 + int (length ids) - 1]"
    by (simp add: upto_rec1)
  have notin: "map_of (zip ids ps) i = None" for ps :: "int list"
    using Cons.prems by (auto simp: map_of_eq_None_iff dest: set_zip_leftD)
  from Cons.prems have "distinct ids" by simp
  from Cons.IH[OF this] show ?case
    unfolding up by (auto simp: update_todo_def notin)
qed

lemma compact_row_frame [simp]:
  "row_id (compact_row ids r) = row_id r"
  "list_id (compact_row ids r) = list_id r"
  "parent_id (compact_row ids r) = parent_id r"
  "is_indented (compact_row ids r) = is_indented r"
  "todo_text (compact_row ids r) = todo_text r"
  "completed (compact_row ids r) = completed r"
  "is_empty (compact_row ids r) = is_empty r"
  unfolding compact_row_def by (simp_all split: option.split)

lemma ordered_ids_distinct:
  assumes "distinct (map row_id ts)"
  shows "distinct (ordered_ids ts l)"
proof -
  have "distinct (map row_id (todos_of_list ts l))"
    unfolding todos_of_list_def using assms by (rule distinct_map_filter)
  moreover have "mset (ordered_ids ts l) = mset (map row_id (todos_of_list ts l))"
    unfolding ordered_ids_def by simp
  ultimately show ?thesis
    using mset_eq_imp_distinct_iff by blast
qed

lemma set_ordered_ids: "set (ordered_ids ts l) = row_id ` {r \<in> set ts. list_id r = l}"
  unfolding ordered_ids_def todos_of_list_def by auto

lemma compact_todos:
  assumes "distinct (map row_id (todos d))"
  shows "todos (compactPositionsTx d l) = map (compact_row (ordered_ids (todos d) l)) (todos d)"
  unfolding compactPositionsTx_def compact_row_def
  using renumber_eq[OF ordered_ids_distinct[OF assms, of l], of "todos d" 1] by simp

lemma compact_row_nth:
  assumes "distinct ids" "j < length ids" "row_id r = ids ! j"
  shows "compact_row ids r = r\<lparr>position := Fin (int j + 1)\<rparr>"
proof -
  have "map_of (zip ids [1..int (length ids)]) (ids ! j) = Some ([1..int (length ids)] ! j)"
    using assms by (intro map_of_zip_nth) auto
  moreover have "[1..int (length ids)] ! j = 1 + int j"
    using assms by (intro nth_upto) auto
  ultimately show ?thesis
    unfolding compact_row_def using assms by (simp add: add.commute)
qed

lemma compact_row_other:
  "row_id r \<notin> set ids \<Longrightarrow> compact_row ids r = r"
  unfolding compact_row_def
  by (auto split: option.split dest!: map_of_SomeD set_zip_leftD)

lemma select_todo_map:
  assumes "distinct (map row_id ts)" "r \<in> set ts" "\<And>x. row_id (g x) = row_id x"
  shows "select_todo (map g ts) (row_id r) = Some (g r)"
proof -
  have "row_id \<circ> g = row_id"
    using assms(3) by (simp add: fun_eq_iff)
  then have "map row_id (map g ts) = map row_id ts"
    by simp
  then have "distinct (map row_id (map g ts))"
    using assms(1) by (simp only:)
  moreover have "g r \<in> set (map g ts)"
    using assms(2) by simp
  ultimately have "select_todo (map g ts) (row_id (g r)) = Some (g r)"
    by (rule select_todo_distinct)
  then show ?thesis
    using assms(3) by simp
qed

lemma sorted_map_Fin_upto: "sorted (map Fin [i..j])"
  by (simp add: sorted_map)

lemma compact_positions_list:
  assumes "distinct (map row_id ts)"
  shows "mset (map position (todos_of_list (map (compact_row (ordered_ids ts l)) ts) l)) =
         mset (map Fin [1..int (length (todos_of_list ts l))])"
proof -
  let ?ids = "ordered_ids ts l"
  let ?S = "sort_key order_key (todos_of_list ts l)"
  have dist: "distinct ?ids"
    using assms by (rule ordered_ids_distinct)
  have len: "length ?ids = length (todos_of_list ts l)"
    unfolding ordered_ids_def by simp
  have "todos_of_list (map (compact_row ?ids) ts) l = map (compact_row ?ids) (todos_of_list ts l)"
    unfolding todos_of_list_def by (simp add: filter_map comp_def)
  then have "mset (map position (todos_of_list (map (compact_row ?ids) ts) l)) =
             mset (map (position \<circ> compact_row ?ids) (todos_of_list ts l))"
    by simp
  also have "\<dots> = mset (map (position \<circ> compact_row ?ids) ?S)"
    by (metis mset_map mset_sort)
  also have "map (position \<circ> compact_row ?ids) ?S = map Fin [1..int (length ?ids)]"
  proof (rule nth_equalityI)
    show "length (map (position \<circ> compact_row ?ids) ?S) = length (map Fin [1..int (length ?ids)])"
      using len by simp
  next
    fix j assume "j < length (map (position \<circ> compact_row ?ids) ?S)"
    then have j: "j < length ?ids"
      using len by simp
    then have "row_id (?S ! j) = ?ids ! j"
      unfolding ordered_ids_def by simp
    from compact_row_nth[OF dist j this]
    have "position (compact_row ?ids (?S ! j)) = Fin (int j + 1)"
      by simp
    moreover have "[1..int (length ?ids)] ! j = 1 + int j"
      using j by (intro nth_upto) auto
    ultimately show "map (position \<circ> compact_row ?ids) ?S ! j = map Fin [1..int (length ?ids)] ! j"
      using j len by (simp add: add.commute)
  qed
  finally show ?thesis
    using len by simp
qed

lemma compact_contiguous:
  assumes "distinct (map row_id (todos d))"
  shows "positions_contiguous (compactPositionsTx d l) l"
proof -
  let ?ts' = "map (compact_row (ordered_ids (todos d) l)) (todos d)"
  have "length (todos_of_list ?ts' l) = length (todos_of_list (todos d) l)"
    unfolding todos_of_list_def by (simp add: filter_map comp_def)
  moreover have "sort (map position (todos_of_list ?ts' l)) =
        map Fin [1..int (length (todos_of_list (todos d) l))]"
    using compact_positions_list[OF assms, of l] sorted_map_Fin_upto
    by (intro properties_for_sort) auto
  ultimately show ?thesis
    unfolding positions_contiguous_def compact_todos[OF assms] by simp
qed

text \<open>
  The position a row gets: one more than the number of rows of its list that come before
  it by position and then id.
\<close>

lemma order_key_less:
  "(order_key q < order_key r) =
   (position q < position r \<or> (position q = position r \<and> row_id q < row_id r))"
  unfolding order_key_def by (auto simp: less_prod_def)

lemma filter_less_sorted:
  assumes "sorted (map f xs)" "distinct (map f xs)" "j < length xs"
  shows "filter (\<lambda>q. f q < f (xs ! j)) xs = take j xs"
proof -
  have strict: "f (xs ! i) < f (xs ! k)" if "i < k" "k < length xs" for i k
  proof -
    have "f (xs ! i) \<le> f (xs ! k)"
      using sorted_nth_mono[OF assms(1), of i k] that by simp
    moreover have "f (xs ! i) \<noteq> f (xs ! k)"
      using assms(2) that nth_eq_iff_index_eq[of "map f xs" i k] by simp
    ultimately show ?thesis by simp
  qed
  have ge: "f (xs ! j) \<le> f (xs ! k)" if "j \<le> k" "k < length xs" for k
    using sorted_nth_mono[OF assms(1), of j k] that by simp
  have a: "filter (\<lambda>q. f q < f (xs ! j)) (take j xs) = take j xs"
  proof (rule filter_True)
    show "\<forall>x\<in>set (take j xs). f x < f (xs ! j)"
    proof
      fix x assume "x \<in> set (take j xs)"
      then obtain i where "i < j" "x = xs ! i"
        using assms(3) by (auto simp: in_set_conv_nth)
      then show "f x < f (xs ! j)"
        using strict[of i j] assms(3) by simp
    qed
  qed
  have b: "filter (\<lambda>q. f q < f (xs ! j)) (drop j xs) = []"
  proof (rule filter_False)
    show "\<forall>x\<in>set (drop j xs). \<not> f x < f (xs ! j)"
    proof
      fix x assume "x \<in> set (drop j xs)"
      then obtain i where "i < length xs - j" "x = xs ! (j + i)"
        by (auto simp: in_set_conv_nth)
      then have "f (xs ! j) \<le> f x"
        using ge[of "j + i"] by simp
      then show "\<not> f x < f (xs ! j)"
        by (simp add: not_less)
    qed
  qed
  have "filter (\<lambda>q. f q < f (xs ! j)) xs = filter (\<lambda>q. f q < f (xs ! j)) (take j xs @ drop j xs)"
    by simp
  also have "\<dots> = take j xs"
    unfolding filter_append a b by simp
  finally show ?thesis .
qed

lemma compact_row_rank:
  assumes "distinct (map row_id ts)" "r \<in> set ts" "list_id r = l"
  shows "compact_row (ordered_ids ts l) r = r\<lparr>position := Fin (int (rows_before ts l r) + 1)\<rparr>"
proof -
  let ?L = "todos_of_list ts l"
  let ?S = "sort_key order_key ?L"
  let ?ids = "ordered_ids ts l"
  let ?P = "\<lambda>q. order_key q < order_key r"
  have "r \<in> set ?S"
    using assms(2,3) unfolding todos_of_list_def by simp
  then obtain j where j: "j < length ?S" "?S ! j = r"
    unfolding in_set_conv_nth by blast
  have dL: "distinct (map row_id ?L)"
    unfolding todos_of_list_def using assms(1) by (rule distinct_map_filter)
  have "mset (map row_id ?S) = mset (map row_id ?L)"
    by simp
  then have dS: "distinct (map row_id ?S)"
    using dL mset_eq_imp_distinct_iff by blast
  have "map row_id ?S = map snd (map order_key ?S)"
    unfolding order_key_def by (simp add: comp_def)
  then have dk: "distinct (map order_key ?S)"
    using dS distinct_map[of snd "map order_key ?S"] by (metis distinct_map)
  have "rows_before ts l r = length (filter ?P ?L)"
    unfolding rows_before_def todos_of_list_def order_key_less
    by (simp add: conj_commute)
  also have "\<dots> = size (filter_mset ?P (mset ?L))"
    by (metis mset_filter size_mset)
  also have "\<dots> = size (filter_mset ?P (mset ?S))"
    by simp
  also have "\<dots> = length (filter ?P ?S)"
    by (metis mset_filter size_mset)
  also have "filter ?P ?S = take j ?S"
    using filter_less_sorted[of order_key ?S j] dk j by simp
  finally have rank: "rows_before ts l r = j"
    using j(1) by simp
  have "j < length ?ids" "row_id r = ?ids ! j"
    using j unfolding ordered_ids_def by auto
  from compact_row_nth[OF ordered_ids_distinct[OF assms(1)] this] show ?thesis
    unfolding rank .
qed

lemma compact_row_cases:
  assumes "distinct (map row_id ts)" "r \<in> set ts"
  shows "compact_row (ordered_ids ts l) r =
           (if list_id r = l then r\<lparr>position := Fin (int (rows_before ts l r) + 1)\<rparr> else r)"
proof (cases "list_id r = l")
  case True
  with compact_row_rank[OF assms True] show ?thesis
    by simp
next
  case False
  have "row_id r \<notin> set (ordered_ids ts l)"
  proof
    assume "row_id r \<in> set (ordered_ids ts l)"
    then obtain r' where r': "r' \<in> set ts" "list_id r' = l" "row_id r' = row_id r"
      unfolding set_ordered_ids by auto
    have "inj_on row_id (set ts)"
      using assms(1) by (simp add: distinct_map)
    then have "r' = r"
      using r' assms(2) by (auto dest: inj_onD)
    then show False
      using r' False by simp
  qed
  then have "compact_row (ordered_ids ts l) r = r"
    by (rule compact_row_other)
  with False show ?thesis
    by simp
qed

lemma lift_todos_ids [simp]: "map row_id (lift_todos ts ds) = map row_id ts"
  unfolding lift_todos_def by (induction ds arbitrary: ts) simp_all

lemma apply_proposed_ids [simp]: "map row_id (apply_proposed ts pr) = map row_id ts"
  unfolding apply_proposed_def by (induction pr arbitrary: ts) (simp_all add: case_prod_beta)



subsection \<open>createTodo\<close>







subsection \<open>Transactions and updateTodo\<close>

lemma transaction_Inl: "transaction d out = (d', Inl e) \<Longrightarrow> d' = d"
  unfolding transaction_def by (simp split: outcome.splits)

lemma transaction_Inr: "transaction d out = (d', Inr v) \<Longrightarrow> out = Returned v d'"
  unfolding transaction_def by (simp split: outcome.splits)

lemma select_todo_update:
  "(\<And>r. row_id (f r) = row_id r) \<Longrightarrow>
   select_todo (update_todo ts i f) i = map_option f (select_todo ts i)"
  unfolding select_todo_def update_todo_def by (induction ts) auto

lemma update_todo_list_ids:
  "(\<And>r. list_id (f r) = list_id r) \<Longrightarrow> map list_id (update_todo ts i f) = map list_id ts"
  unfolding update_todo_def by (induction ts) auto

lemma set_clauses_frame [simp]:
  "row_id (set_clauses p t r) = row_id r"
  "list_id (set_clauses p t r) = list_id r"
  unfolding set_clauses_def by simp_all

lemma updateTodo_tx_cases:
  assumes "select_todo (todos d) tid = Some old"
  shows "updateTodo_tx fuel d tid p = None \<or>
         (\<exists>e. updateTodo_tx fuel d tid p = Some (Threw e)) \<or>
         updateTodo_tx fuel d tid p = Some (Returned (Some old) d) \<or>
         updateTodo_tx fuel d tid p =
           Some (Returned
             (Some (set_clauses p (case p_parentId p of None \<Rightarrow> parent_id old | Some v \<Rightarrow> v) old))
             (d\<lparr>todos := update_todo (todos d) tid
                  (set_clauses p (case p_parentId p of None \<Rightarrow> parent_id old | Some v \<Rightarrow> v))\<rparr>))"
proof -
  let ?t = "case p_parentId p of None \<Rightarrow> parent_id old | Some v \<Rightarrow> v"
  show ?thesis
  proof (cases "validate_parent fuel (todos d) tid old ?t")
    case None
    then show ?thesis
      unfolding updateTodo_tx_def Let_def assms by simp
  next
    case (Some r)
    then show ?thesis
      unfolding updateTodo_tx_def Let_def by (cases r) (simp_all add: select_todo_update assms)
  qed
qed

lemma updateTodo_tx_Returned:
  assumes "updateTodo_tx fuel d tid p = Some (Returned out d')"
  shows "\<exists>old. select_todo (todos d) tid = Some old \<and>
           (d' = d \<and> out = Some old \<or>
            (\<exists>t. d' = d\<lparr>todos := update_todo (todos d) tid (set_clauses p t)\<rparr> \<and>
                 out = Some (set_clauses p t old)))"
proof (cases "select_todo (todos d) tid")
  case None
  with assms show ?thesis
    unfolding updateTodo_tx_def by simp
next
  case (Some old)
  from updateTodo_tx_cases[OF this, of fuel p] Some show ?thesis
    unfolding assms by (elim disjE) auto
qed

lemma updateTodo_tx_no_field:
  assumes "select_todo (todos d) tid = Some row"
    and "p_text p = None" "p_completed p = None" "p_isEmpty p = None"
    and "p_parentId p = None" "p_isIndented p = None" "p_position p = None"
  shows "updateTodo_tx fuel d tid p =
     (case validate_parent fuel (todos d) tid row (parent_id row) of
        None \<Rightarrow> None
      | Some (Some e) \<Rightarrow> Some (Threw e)
      | Some None \<Rightarrow>
          if parent_id row \<noteq> None \<and> position row = Fin 1 then Some (Threw CannotIndentFirst)
          else Some (Returned (Some row) d))"
proof -
  have ns: "no_sets p"
    using assms unfolding no_sets_def by simp
  show ?thesis
    unfolding updateTodo_tx_def Let_def using assms ns
    by (simp split: option.split)
qed

lemma selected_row_only:
  assumes "distinct (map row_id ts)" and "select_todo ts pid = Some pr"
  shows "pid \<in> row_id ` set ts"
    and "(\<forall>pr' \<in> set ts. row_id pr' = pid \<longrightarrow> list_id pr' \<noteq> l) = (list_id pr \<noteq> l)"
proof -
  from select_todo_Some[OF assms(2)] have mem: "pr \<in> set ts" and id: "row_id pr = pid"
    by simp_all
  from mem id show "pid \<in> row_id ` set ts"
    by (rule rev_image_eqI[OF _ sym])
  have inj: "inj_on row_id (set ts)"
    using assms(1) by (simp add: distinct_map)
  have only: "pr' = pr" if "pr' \<in> set ts" "row_id pr' = pid" for pr'
  proof (rule inj_onD[OF inj _ that(1) mem])
    show "row_id pr' = row_id pr"
      using that(2) id by simp
  qed
  show "(\<forall>pr' \<in> set ts. row_id pr' = pid \<longrightarrow> list_id pr' \<noteq> l) = (list_id pr \<noteq> l)"
  proof (rule iffI)
    assume "\<forall>pr' \<in> set ts. row_id pr' = pid \<longrightarrow> list_id pr' \<noteq> l"
    with mem id show "list_id pr \<noteq> l"
      by blast
  next
    assume a: "list_id pr \<noteq> l"
    show "\<forall>pr' \<in> set ts. row_id pr' = pid \<longrightarrow> list_id pr' \<noteq> l"
    proof (intro ballI impI)
      fix pr' assume "pr' \<in> set ts" "row_id pr' = pid"
      from only[OF this] a show "list_id pr' \<noteq> l"
        by simp
    qed
  qed
qed

lemma replace_first_list_ids:
  "(\<And>t. list_id (f t) = list_id t) \<Longrightarrow> replace_first P f ts = Some ts' \<Longrightarrow>
   map list_id ts' = map list_id ts"
  by (induction ts arbitrary: ts') (auto split: if_splits)

subsection \<open>What a committed call has done\<close>









subsection \<open>The recursive query and the lift\<close>








lemma lifted_row_id [simp]: "row_id (lifted D r) = row_id r"
  unfolding lifted_def by simp




subsection \<open>The validation of a batch\<close>














subsection \<open>The ancestor walk of updateTodo on a store without a cycle\<close>

text \<open>
  A walk that has not ended after \<open>n\<close> tests has followed \<open>n\<close> parent links through
  rows of the table. Without a cycle these rows are all different, so a walk from a row of
  the table ends within as many tests as the table has rows, and \<^verbatim>\<open>updateTodo\<close> returns
  or throws.
\<close>

lemma walk_path:
  "ancestor_walk n ts tid cur = None \<Longrightarrow> cur \<in> set ts \<Longrightarrow>
   \<exists>path. length path = Suc n \<and> hd path = row_id cur \<and>
          successively (\<lambda>a b. (a, b) \<in> parent_rel ts) path \<and> set path \<subseteq> row_id ` set ts"
proof (induction n arbitrary: cur)
  case 0
  have "length [row_id cur] = Suc 0 \<and> hd [row_id cur] = row_id cur \<and>
        successively (\<lambda>a b. (a, b) \<in> parent_rel ts) [row_id cur] \<and>
        set [row_id cur] \<subseteq> row_id ` set ts"
    using "0.prems"(2) by simp
  then show ?case by blast
next
  case (Suc n)
  from Suc.prems(1) obtain p nxt where p: "parent_id cur = Some p"
    and nxt: "select_todo ts p = Some nxt" and w: "ancestor_walk n ts tid nxt = None"
    by (auto split: option.splits if_splits)
  from select_todo_Some[OF nxt] have n: "nxt \<in> set ts" "row_id nxt = p"
    by simp_all
  from Suc.IH[OF w n(1)] obtain path where path: "length path = Suc n" "hd path = p"
    "successively (\<lambda>a b. (a, b) \<in> parent_rel ts) path" "set path \<subseteq> row_id ` set ts"
    using n(2) by auto
  have edge: "(row_id cur, p) \<in> parent_rel ts"
    unfolding parent_rel_def using Suc.prems(2) p by auto
  from path(1) obtain a rest where ar: "path = a # rest"
    by (cases path) auto
  with path(2) have "a = p"
    by simp
  with ar path(3) edge have "successively (\<lambda>a b. (a, b) \<in> parent_rel ts) (row_id cur # path)"
    by simp
  with path Suc.prems(2) have
    "length (row_id cur # path) = Suc (Suc n) \<and> hd (row_id cur # path) = row_id cur \<and>
     successively (\<lambda>a b. (a, b) \<in> parent_rel ts) (row_id cur # path) \<and>
     set (row_id cur # path) \<subseteq> row_id ` set ts"
    by simp
  then show ?case by blast
qed

lemma path_reaches:
  "successively (\<lambda>a b. (a, b) \<in> R) (x # xs) \<Longrightarrow> y \<in> set xs \<Longrightarrow> (x, y) \<in> R\<^sup>+"
proof (induction xs arbitrary: x)
  case Nil
  then show ?case by simp
next
  case (Cons z zs)
  from Cons.prems(1) have xz: "(x, z) \<in> R" and s: "successively (\<lambda>a b. (a, b) \<in> R) (z # zs)"
    by simp_all
  show ?case
  proof (cases "y = z")
    case True
    with xz show ?thesis by auto
  next
    case False
    with Cons.prems(2) have "y \<in> set zs" by simp
    from Cons.IH[OF s this] xz show ?thesis
      by (auto intro: trancl_into_trancl2)
  qed
qed

lemma acyclic_path_distinct:
  "acyclic R \<Longrightarrow> successively (\<lambda>a b. (a, b) \<in> R) path \<Longrightarrow> distinct path"
proof (induction path)
  case Nil
  then show ?case by simp
next
  case (Cons x xs)
  have "x \<notin> set xs"
    using path_reaches[OF Cons.prems(2)] Cons.prems(1) unfolding acyclic_def by blast
  moreover have "successively (\<lambda>a b. (a, b) \<in> R) xs"
    using Cons.prems(2) by (cases xs) simp_all
  ultimately show ?case
    using Cons.IH Cons.prems(1) by simp
qed

lemma ancestor_walk_ends:
  assumes "acyclic (parent_rel ts)" and "cur \<in> set ts" and "length ts \<le> fuel"
  shows "ancestor_walk fuel ts tid cur \<noteq> None"
proof
  assume "ancestor_walk fuel ts tid cur = None"
  from walk_path[OF this assms(2)] obtain path where path: "length path = Suc fuel"
    "successively (\<lambda>a b. (a, b) \<in> parent_rel ts) path" "set path \<subseteq> row_id ` set ts"
    by auto
  from acyclic_path_distinct[OF assms(1) path(2)] have "card (set path) = length path"
    by (rule distinct_card)
  moreover have "card (set path) \<le> card (row_id ` set ts)"
    using path(3) by (intro card_mono) simp_all
  moreover have "card (row_id ` set ts) \<le> length ts"
    by (metis card_image_le card_length le_trans List.finite_set)
  ultimately show False
    using path(1) assms(3) by simp
qed

lemma validate_parent_ends:
  assumes "acyclic (parent_rel ts)" and "length ts \<le> fuel"
  shows "validate_parent fuel ts tid row t \<noteq> None"
proof (cases t)
  case None
  then show ?thesis
    unfolding validate_parent_def by simp
next
  case (Some pid)
  show ?thesis
  proof (cases "select_todo ts pid")
    case None
    with Some show ?thesis
      unfolding validate_parent_def by simp
  next
    case pr: (Some pr)
    from select_todo_Some[OF this] have "pr \<in> set ts"
      by simp
    from ancestor_walk_ends[OF assms(1) this assms(2), of tid] Some pr show ?thesis
      unfolding validate_parent_def by auto
  qed
qed

lemma updateTodo_ends:
  assumes "acyclic (parent_rel (todos d))" and "length (todos d) \<le> fuel"
  shows "updateTodo fuel d tid p \<noteq> None"
proof (cases "select_todo (todos d) tid")
  case None
  then show ?thesis
    unfolding updateTodo_def updateTodo_tx_def by simp
next
  case (Some row)
  let ?t = "case p_parentId p of None \<Rightarrow> parent_id row | Some v \<Rightarrow> v"
  from validate_parent_ends[OF assms, of tid row ?t]
  obtain v where v: "validate_parent fuel (todos d) tid row ?t = Some v"
    by auto
  show ?thesis
    unfolding updateTodo_def updateTodo_tx_def Let_def Some option.case v
    by (cases v) simp_all
qed

subsection \<open>The ancestor walk of updateTodo on any store\<close>

text \<open>
  With distinct ids every todo has at most one parent, so the walk follows the one chain of
  parents of the row it starts from. It throws when the chain meets the todo being updated,
  it has not ended after any number of tests when the chain leads into a cycle without
  meeting that todo, and it ends without throwing otherwise.
\<close>

lemma parent_of_row:
  assumes "distinct (map row_id ts)" and "cur \<in> set ts" and "(row_id cur, z) \<in> parent_rel ts"
  shows "parent_id cur = Some z"
proof -
  from assms(3) obtain r where r: "r \<in> set ts" "row_id r = row_id cur" "parent_id r = Some z"
    unfolding parent_rel_def by auto
  have "inj_on row_id (set ts)"
    using assms(1) by (simp add: distinct_map)
  with r assms(2) have "r = cur"
    by (auto dest: inj_onD)
  with r show ?thesis
    by simp
qed

lemma row_of_child:
  assumes "(z, w) \<in> parent_rel ts"
  shows "\<exists>nxt. select_todo ts z = Some nxt \<and> nxt \<in> set ts \<and> row_id nxt = z"
proof -
  from assms have "z \<in> row_id ` set ts"
    unfolding parent_rel_def by auto
  then obtain nxt where "select_todo ts z = Some nxt"
    using select_todo_None[of ts z] by (cases "select_todo ts z") auto
  with select_todo_Some[OF this] show ?thesis
    by simp
qed

lemma ancestor_walk_True:
  "ancestor_walk n ts tid cur = Some True \<Longrightarrow> cur \<in> set ts \<Longrightarrow>
   (row_id cur, tid) \<in> (parent_rel ts)\<^sup>+"
proof (induction n arbitrary: cur)
  case 0
  then show ?case by simp
next
  case (Suc n)
  from Suc.prems(1) obtain p where p: "parent_id cur = Some p"
    by (cases "parent_id cur") auto
  then have edge: "(row_id cur, p) \<in> parent_rel ts"
    unfolding parent_rel_def using Suc.prems(2) by auto
  show ?case
  proof (cases "p = tid")
    case True
    with edge show ?thesis by auto
  next
    case False
    with Suc.prems(1) p obtain nxt where nxt: "select_todo ts p = Some nxt"
      and w: "ancestor_walk n ts tid nxt = Some True"
      by (cases "select_todo ts p") auto
    from select_todo_Some[OF nxt] have "nxt \<in> set ts" "row_id nxt = p"
      by simp_all
    with Suc.IH[OF w] edge show ?thesis
      by (auto intro: trancl_into_trancl2)
  qed
qed

lemma ancestor_walk_reaches:
  "(row_id cur, tid) \<in> parent_rel ts ^^ k \<Longrightarrow> 0 < k \<Longrightarrow> k \<le> n \<Longrightarrow>
   distinct (map row_id ts) \<Longrightarrow> cur \<in> set ts \<Longrightarrow> ancestor_walk n ts tid cur = Some True"
proof (induction k arbitrary: cur n)
  case 0
  then show ?case by simp
next
  case (Suc k)
  from relpow_Suc_D2[OF Suc.prems(1)]
  obtain z where z: "(row_id cur, z) \<in> parent_rel ts" "(z, tid) \<in> parent_rel ts ^^ k"
    by blast
  from parent_of_row[OF Suc.prems(4,5) z(1)] have p: "parent_id cur = Some z" .
  from Suc.prems(3) obtain n' where n: "n = Suc n'" "k \<le> n'"
    by (cases n) auto
  show ?case
  proof (cases "z = tid")
    case True
    with p n show ?thesis by simp
  next
    case False
    with z(2) have k: "0 < k"
      by (cases k) auto
    then obtain k' where "k = Suc k'"
      by (cases k) auto
    with z(2) obtain w where "(z, w) \<in> parent_rel ts"
      using relpow_Suc_D2[of z tid k' "parent_rel ts"] by blast
    from row_of_child[OF this] obtain nxt where nxt: "select_todo ts z = Some nxt"
      "nxt \<in> set ts" "row_id nxt = z"
      by auto
    from Suc.IH[of nxt n'] z(2) k n(2) Suc.prems(4) nxt
    have "ancestor_walk n' ts tid nxt = Some True"
      by simp
    with p False nxt n show ?thesis
      by simp
  qed
qed

lemma ancestor_walk_loops:
  "distinct (map row_id ts) \<Longrightarrow> cur \<in> set ts \<Longrightarrow> (row_id cur, tid) \<notin> (parent_rel ts)\<^sup>+ \<Longrightarrow>
   chain_loops ts (row_id cur) \<Longrightarrow> ancestor_walk n ts tid cur = None"
proof (induction n arbitrary: cur)
  case 0
  then show ?case by simp
next
  case (Suc n)
  let ?R = "parent_rel ts"
  from Suc.prems(4) obtain x where x: "(row_id cur, x) \<in> ?R\<^sup>*" "(x, x) \<in> ?R\<^sup>+"
    unfolding chain_loops_def by auto
  then have "(row_id cur, x) \<in> ?R\<^sup>+"
    by (rule rtrancl_trancl_trancl)
  then obtain z where z: "(row_id cur, z) \<in> ?R" "(z, x) \<in> ?R\<^sup>*"
    by (auto dest: tranclD)
  from parent_of_row[OF Suc.prems(1,2) z(1)] have p: "parent_id cur = Some z" .
  have ne: "z \<noteq> tid"
    using z(1) Suc.prems(3) by auto
  from z(2) x(2) have "(z, x) \<in> ?R\<^sup>+"
    by (rule rtrancl_trancl_trancl)
  then obtain w where "(z, w) \<in> ?R"
    by (auto dest: tranclD)
  from row_of_child[OF this] obtain nxt where nxt: "select_todo ts z = Some nxt"
    "nxt \<in> set ts" "row_id nxt = z"
    by auto
  have "(row_id nxt, tid) \<notin> ?R\<^sup>+"
    using z(1) Suc.prems(3) nxt(3) by (auto intro: trancl_into_trancl2)
  moreover have "chain_loops ts (row_id nxt)"
    unfolding chain_loops_def using z(2) x(2) nxt(3) by auto
  ultimately have "ancestor_walk n ts tid nxt = None"
    using Suc.IH[OF Suc.prems(1) nxt(2)] by simp
  with p ne nxt show ?case
    by simp
qed

lemma path_reaches_hd:
  "successively (\<lambda>a b. (a, b) \<in> R) (x # xs) \<Longrightarrow> y \<in> set (x # xs) \<Longrightarrow> (x, y) \<in> R\<^sup>*"
  using path_reaches[of R x xs y] by auto

lemma loopfree_path_distinct:
  "successively (\<lambda>a b. (a, b) \<in> R) path \<Longrightarrow> \<forall>x \<in> set path. (x, x) \<notin> R\<^sup>+ \<Longrightarrow> distinct path"
proof (induction path)
  case Nil
  then show ?case by simp
next
  case (Cons x xs)
  have "x \<notin> set xs"
    using path_reaches[OF Cons.prems(1)] Cons.prems(2) by auto
  moreover have "successively (\<lambda>a b. (a, b) \<in> R) xs"
    using Cons.prems(1) by (cases xs) simp_all
  ultimately show ?case
    using Cons.IH Cons.prems(2) by simp
qed

lemma ancestor_walk_stops:
  assumes "\<not> chain_loops ts (row_id cur)" and "cur \<in> set ts" and "length ts \<le> fuel"
  shows "ancestor_walk fuel ts tid cur \<noteq> None"
proof
  assume "ancestor_walk fuel ts tid cur = None"
  from walk_path[OF this assms(2)] obtain path where path: "length path = Suc fuel"
    "hd path = row_id cur"
    "successively (\<lambda>a b. (a, b) \<in> parent_rel ts) path" "set path \<subseteq> row_id ` set ts"
    by auto
  from path(1) obtain a rest where ar: "path = a # rest"
    by (cases path) auto
  with path(2) have a: "a = row_id cur"
    by simp
  have "\<forall>x \<in> set path. (x, x) \<notin> (parent_rel ts)\<^sup>+"
  proof
    fix x assume "x \<in> set path"
    with path(3) have "(row_id cur, x) \<in> (parent_rel ts)\<^sup>*"
      unfolding ar a by (rule path_reaches_hd)
    with assms(1) show "(x, x) \<notin> (parent_rel ts)\<^sup>+"
      unfolding chain_loops_def by auto
  qed
  from loopfree_path_distinct[OF path(3) this] have "card (set path) = length path"
    by (rule distinct_card)
  moreover have "card (set path) \<le> card (row_id ` set ts)"
    using path(4) by (intro card_mono) simp_all
  moreover have "card (row_id ` set ts) \<le> length ts"
    by (metis card_image_le card_length le_trans List.finite_set)
  ultimately show False
    using path(1) assms(3) by simp
qed

text \<open>The outcome of the walk from a row of the table, for every large enough fuel.\<close>

lemma ancestor_walk_outcome:
  assumes "distinct (map row_id ts)" and "cur \<in> set ts"
  shows "\<exists>n. \<forall>fuel \<ge> n. ancestor_walk fuel ts tid cur =
           (if (row_id cur, tid) \<in> (parent_rel ts)\<^sup>+ then Some True
            else if chain_loops ts (row_id cur) then None
            else Some False)"
proof (cases "(row_id cur, tid) \<in> (parent_rel ts)\<^sup>+")
  case True
  then obtain k where k: "0 < k" "(row_id cur, tid) \<in> parent_rel ts ^^ k"
    unfolding trancl_power by auto
  have "\<forall>fuel \<ge> k. ancestor_walk fuel ts tid cur = Some True"
    using ancestor_walk_reaches[OF k(2,1) _ assms] by simp
  with True show ?thesis
    by auto
next
  case False
  show ?thesis
  proof (cases "chain_loops ts (row_id cur)")
    case True
    from ancestor_walk_loops[OF assms False True] False True show ?thesis
      by simp
  next
    case nl: False
    have "ancestor_walk fuel ts tid cur = Some False" if "length ts \<le> fuel" for fuel
    proof -
      from ancestor_walk_stops[OF nl assms(2) that, of tid]
      obtain b where b: "ancestor_walk fuel ts tid cur = Some b"
        by auto
      with ancestor_walk_True[of fuel ts tid cur] assms(2) False show ?thesis
        by (cases b) auto
    qed
    with False nl show ?thesis
      by auto
  qed
qed

section \<open>Positions after the operations\<close>




section \<open>The first item of a batch\<close>

text \<open>
  Claim C2 at a batch that puts an item with a parent first without writing the position 1.
  The route looks for the entry whose position is the number 1 (\<^verbatim>\<open>body.find\<close>), under
  the comment \<^verbatim>\<open>Enforce: the top item (position 1) cannot be indented\<close>; it does not
  look for the item that is first once the batch is applied and the positions are compacted,
  and the engine has no check of its own. With todo 1 at position 1 and todo 2 at position 2,
  the batch that moves todo 2 to position 0 under parent 1 is accepted, and after the
  compaction todo 2 is at position 1 with parent 1. The same move written with the
  positions 1 and 2 is refused by the route, and \<^verbatim>\<open>updateTodo\<close> and
  \<^verbatim>\<open>createTodo\<close> refuse a todo with parent 1 at position 1 on the same store.
\<close>

theorem patch_todos_positions_first_by_compaction:
  "patch_todos_positions db_two [\<lparr>u_id = 2, u_position = 0, u_parentId = Some 1\<rparr>] =
     (db_indented_first, Inr (Updated 1 1)) \<and>
   select_todo (todos db_indented_first) 2 = Some (mk_todo 2 1 (Some 1) (Fin 1)) \<and>
   position (mk_todo 2 1 (Some 1) (Fin 1)) = Fin 1 \<and>
   parent_id (mk_todo 2 1 (Some 1) (Fin 1)) = Some 1 \<and>
   patch_todos_positions db_two
     [\<lparr>u_id = 2, u_position = 1, u_parentId = Some 1\<rparr>, \<lparr>u_id = 1, u_position = 2, u_parentId = None\<rparr>] =
     (db_two, Inl CannotIndentFirst) \<and>
   updateTodo 1 db_two 2 (empty_patch\<lparr>p_parentId := Some (Some 1), p_position := Some (Some (Fin 1))\<rparr>) =
     Some (db_two, Inl CannotIndentFirst) \<and>
   createTodo db_two ((mk_payload (Some (Fin 1)))\<lparr>c_parentId := Some 1\<rparr>) =
     (db_two, Inl CannotIndentFirst)"
  by code_simp

section \<open>The cycle guard of updateTodo\<close>

text \<open>
  Claim C3 at a store with a parent cycle. The walk of \<^verbatim>\<open>updateTodo\<close> keeps no set of
  the rows it has seen: it ends at a null parent, at a missing row, or at the todo being
  updated. With todos 2 and 3 each other's parent, \<^verbatim>\<open>updateTodo(1, {parentId: 2})\<close> has
  not ended after any number of steps. \<^verbatim>\<open>updateTodoPositions\<close>, whose walk does keep the
  set \<^verbatim>\<open>seen\<close>, ends on the same store and the same new parent with
  \<^verbatim>\<open>Parent cycle detected\<close>.
\<close>

theorem updateTodo_walk_never_ends:
  "(\<forall>fuel. updateTodo fuel db_cycle 1 (empty_patch\<lparr>p_parentId := Some (Some 2)\<rparr>) = None) \<and>
   updateTodoPositions db_cycle [\<lparr>u_id = 1, u_position = 1, u_parentId = Some 2\<rparr>] =
     (db_cycle, Inl ParentCycleDetected)"
proof
  let ?ts = "todos db_cycle"
  have sel: "select_todo ?ts 1 = Some (mk_todo 1 1 None (Fin 1))"
    "select_todo ?ts 2 = Some (mk_todo 2 1 (Some 3) (Fin 2))"
    "select_todo ?ts 3 = Some (mk_todo 3 1 (Some 2) (Fin 3))"
    by code_simp+
  have walk: "ancestor_walk fuel ?ts 1 (mk_todo 2 1 (Some 3) (Fin 2)) = None \<and>
              ancestor_walk fuel ?ts 1 (mk_todo 3 1 (Some 2) (Fin 3)) = None" for fuel
  proof (induction fuel)
    case 0
    show ?case by simp
  next
    case (Suc fuel)
    then show ?case
      by (simp add: sel mk_todo_def)
  qed
  have "validate_parent fuel ?ts 1 (mk_todo 1 1 None (Fin 1)) (Some 2) = None" for fuel
    unfolding validate_parent_def using walk[of fuel]
    by (simp add: sel mk_todo_def)
  then show "\<forall>fuel. updateTodo fuel db_cycle 1 (empty_patch\<lparr>p_parentId := Some (Some 2)\<rparr>) = None"
    unfolding updateTodo_def updateTodo_tx_def Let_def
    by (simp add: sel empty_patch_def)
  show "updateTodoPositions db_cycle [\<lparr>u_id = 1, u_position = 1, u_parentId = Some 2\<rparr>] =
     (db_cycle, Inl ParentCycleDetected)"
    by code_simp
qed

section \<open>When a batch is rejected\<close>




section \<open>deleteTodo without cascade\<close>




section \<open>Atomicity\<close>

text \<open>
  Claim C6. Each of \<^verbatim>\<open>createTodo\<close>, \<^verbatim>\<open>updateTodo\<close>, \<^verbatim>\<open>updateTodoPositions\<close>,
  \<^verbatim>\<open>deleteTodo\<close> and \<^verbatim>\<open>deleteList\<close> runs its statements inside one transaction: when
  the call ends with an error, the store after the call is the store before it.
\<close>

theorem operations_atomic:
  "(createTodo d input = (d1, Inl e1) \<longrightarrow> d1 = d) \<and>
   (updateTodo fuel d tid p = Some (d2, Inl e2) \<longrightarrow> d2 = d) \<and>
   (updateTodoPositions d updates = (d3, Inl e3) \<longrightarrow> d3 = d) \<and>
   (deleteTodo fuel' d tid' opts = Some (d4, Inl e4) \<longrightarrow> d4 = d) \<and>
   (deleteList d i = (d5, Inl e5) \<longrightarrow> d5 = d)"
  unfolding createTodo_def updateTodo_def updateTodoPositions_def withTxn_def deleteTodo_def
    deleteList_def Let_def
  by (auto dest: transaction_Inl split: if_splits)

theorem operations_atomic_witness:
  "createTodo db_two ((mk_payload None)\<lparr>c_parentId := Some 9\<rparr>) = (db_two, Inl ParentTodoNotFound) \<and>
   updateTodo 2 db_two 9 empty_patch = Some (db_two, Inl TodoNotFound) \<and>
   updateTodoPositions db_two [\<lparr>u_id = 2, u_position = 1, u_parentId = Some 2\<rparr>] = (db_two, Inl OwnParent) \<and>
   deleteTodo 2 db_two 9 None = Some (db_two, Inl TodoNotFound) \<and>
   deleteList db_two 9 = (db_two, Inl ListNotFound)"
proof -
  have h: "createTodo db_two ((mk_payload None)\<lparr>c_parentId := Some 9\<rparr>) = (db_two, Inl ParentTodoNotFound)"
    "updateTodo 2 db_two 9 empty_patch = Some (db_two, Inl TodoNotFound)"
    "updateTodoPositions db_two [\<lparr>u_id = 2, u_position = 1, u_parentId = Some 2\<rparr>] = (db_two, Inl OwnParent)"
    "deleteTodo 2 db_two 9 None = Some (db_two, Inl TodoNotFound)"
    "deleteList db_two 9 = (db_two, Inl ListNotFound)"
    by code_simp+
  from h operations_atomic[of db_two "(mk_payload None)\<lparr>c_parentId := Some 9\<rparr>" db_two ParentTodoNotFound
      2 9 empty_patch db_two TodoNotFound "[\<lparr>u_id = 2, u_position = 1, u_parentId = Some 2\<rparr>]" db_two OwnParent
      2 9 None db_two TodoNotFound 9 db_two ListNotFound]
  show ?thesis
    by (intro conjI)
qed

section \<open>updateTodo with nothing to update\<close>

text \<open>
  Claim C7, as amended. On a table with distinct ids, for an existing todo \<open>tid\<close> and a
  patch with none of \<^verbatim>\<open>text\<close>, \<^verbatim>\<open>completed\<close>, \<^verbatim>\<open>isEmpty\<close>,
  \<^verbatim>\<open>parentId\<close>, \<^verbatim>\<open>isIndented\<close>, \<^verbatim>\<open>position\<close>, what \<^verbatim>\<open>updateTodo\<close>
  does for every large enough fuel is decided by the stored row alone, and the store is never
  changed. When the stored \<^verbatim>\<open>parent_id\<close> is null, the stored row is returned. When the
  row has a stored parent, the first of these that applies decides: the parent is the todo
  itself (\<^verbatim>\<open>Cannot set parent to self\<close>); no todo has the parent's id
  (\<^verbatim>\<open>Parent todo not found\<close>); the parent is in another list
  (\<^verbatim>\<open>Parent must be in the same list\<close>); the todo is among the ancestors of the parent
  (\<^verbatim>\<open>Cannot create cyclic parent relationship\<close>); the parent links from the parent
  lead into a cycle (the call has not ended after any number of steps); the stored position
  is 1 (\<^verbatim>\<open>Cannot indent the first item in the list\<close>); and when none applies, the
  stored row is returned.
\<close>

theorem updateTodo_no_field:
  assumes "distinct (map row_id (todos d))" and "select_todo (todos d) tid = Some row"
    and "p_text p = None" "p_completed p = None" "p_isEmpty p = None"
    and "p_parentId p = None" "p_isIndented p = None" "p_position p = None"
  shows "\<exists>n. \<forall>fuel \<ge> n. updateTodo fuel d tid p =
     (case parent_id row of
        None \<Rightarrow> Some (d, Inr (Some row))
      | Some pid \<Rightarrow>
          if pid = tid then Some (d, Inl CannotSetParentToSelf)
          else if pid \<notin> row_id ` set (todos d) then Some (d, Inl ParentTodoNotFound)
          else if \<forall>pr \<in> set (todos d). row_id pr = pid \<longrightarrow> list_id pr \<noteq> list_id row
            then Some (d, Inl ParentSameList)
          else if (pid, tid) \<in> (parent_rel (todos d))\<^sup>+ then Some (d, Inl CyclicParentRelationship)
          else if chain_loops (todos d) pid then None
          else if position row = Fin 1 then Some (d, Inl CannotIndentFirst)
          else Some (d, Inr (Some row)))"
proof -
  let ?ts = "todos d"
  let ?C = "case parent_id row of
        None \<Rightarrow> Some (d, Inr (Some row))
      | Some pid \<Rightarrow>
          if pid = tid then Some (d, Inl CannotSetParentToSelf)
          else if pid \<notin> row_id ` set (todos d) then Some (d, Inl ParentTodoNotFound)
          else if \<forall>pr \<in> set (todos d). row_id pr = pid \<longrightarrow> list_id pr \<noteq> list_id row
            then Some (d, Inl ParentSameList)
          else if (pid, tid) \<in> (parent_rel (todos d))\<^sup>+ then Some (d, Inl CyclicParentRelationship)
          else if chain_loops (todos d) pid then None
          else if position row = Fin 1 then Some (d, Inl CannotIndentFirst)
          else Some (d, Inr (Some row))"
  note tx = updateTodo_tx_no_field[OF assms(2-8)]
  have ends: "\<exists>n. \<forall>fuel \<ge> n. updateTodo fuel d tid p = v"
    if "\<And>fuel. n \<le> fuel \<Longrightarrow> updateTodo fuel d tid p = v" for n v
    using that by (intro exI[of _ n] allI impI)
  show ?thesis
  proof (cases "parent_id row")
    case None
    have "updateTodo fuel d tid p = Some (d, Inr (Some row))" for fuel
      unfolding updateTodo_def tx validate_parent_def transaction_def None by simp
    from ends[of 0, OF this] show ?thesis
      unfolding None by simp
  next
    case (Some pid)
    show ?thesis
    proof (cases "pid = tid")
      case True
      have "updateTodo fuel d tid p = Some (d, Inl CannotSetParentToSelf)" for fuel
        unfolding updateTodo_def tx validate_parent_def transaction_def Some using True by simp
      from ends[of 0, OF this] show ?thesis
        unfolding Some using True by simp
    next
      case ne: False
      show ?thesis
      proof (cases "select_todo ?ts pid")
        case None
        have run: "updateTodo fuel d tid p = Some (d, Inl ParentTodoNotFound)" for fuel
          unfolding updateTodo_def tx validate_parent_def transaction_def Some using ne None by simp
        from None have missing: "pid \<notin> row_id ` set ?ts"
          by (simp add: select_todo_None)
        from ends[of 0, OF run] show ?thesis
          unfolding Some option.case if_not_P[OF ne] if_P[OF missing] .
      next
        case pr: (Some pr)
        from select_todo_Some[OF pr] have mem: "pr \<in> set ?ts" and id: "row_id pr = pid"
          by simp_all
        from selected_row_only(1)[OF assms(1) pr]
          selected_row_only(2)[OF assms(1) pr, of "list_id row"]
        have exists: "\<not> pid \<notin> row_id ` set ?ts"
          and same: "(\<forall>pr' \<in> set ?ts. row_id pr' = pid \<longrightarrow> list_id pr' \<noteq> list_id row) =
                    (list_id pr \<noteq> list_id row)"
          by simp_all
        show ?thesis
        proof (cases "list_id pr \<noteq> list_id row")
          case True
          have "updateTodo fuel d tid p = Some (d, Inl ParentSameList)" for fuel
            unfolding updateTodo_def tx validate_parent_def transaction_def Some
            using ne pr True by simp
          from ends[of 0, OF this] show ?thesis
            unfolding Some option.case if_not_P[OF ne] if_not_P[OF exists] same if_P[OF True] .
        next
          case sl: False
          from ancestor_walk_outcome[OF assms(1) mem, of tid] obtain n where
            n0: "\<forall>fuel \<ge> n. ancestor_walk fuel ?ts tid pr =
                  (if (row_id pr, tid) \<in> (parent_rel ?ts)\<^sup>+ then Some True
                   else if chain_loops ?ts (row_id pr) then None else Some False)"
            by (rule exE)
          have n: "ancestor_walk fuel ?ts tid pr =
                  (if (pid, tid) \<in> (parent_rel ?ts)\<^sup>+ then Some True
                   else if chain_loops ?ts pid then None else Some False)" if "n \<le> fuel" for fuel
            using n0[rule_format, OF that] unfolding id .
          have v: "validate_parent fuel ?ts tid row (Some pid) =
                  (if (pid, tid) \<in> (parent_rel ?ts)\<^sup>+ then Some (Some CyclicParentRelationship)
                   else if chain_loops ?ts pid then None else Some None)" if "n \<le> fuel" for fuel
            unfolding validate_parent_def using ne pr sl n[OF that] by simp
          have "updateTodo fuel d tid p =
                  (if (pid, tid) \<in> (parent_rel ?ts)\<^sup>+ then Some (d, Inl CyclicParentRelationship)
                   else if chain_loops ?ts pid then None
                   else if position row = Fin 1 then Some (d, Inl CannotIndentFirst)
                   else Some (d, Inr (Some row)))" if "n \<le> fuel" for fuel
            unfolding updateTodo_def tx Some v[OF that] transaction_def by simp
          from ends[of n, OF this] show ?thesis
            unfolding Some option.case if_not_P[OF ne] if_not_P[OF exists] same if_not_P[OF sl] .
        qed
      qed
    qed
  qed
qed

text \<open>
  Todo 3 of the store of the section on \<^verbatim>\<open>deleteTodo\<close> has the stored parent 2, in the
  same list and with the ancestor 1 only, and the stored position 2: the empty patch returns
  its row.
\<close>

theorem updateTodo_no_field_witness:
  "distinct (map row_id (todos db_family)) \<and>
   select_todo (todos db_family) 3 = Some (mk_todo 3 1 (Some 2) (Fin 2)) \<and>
   p_text empty_patch = None \<and> p_completed empty_patch = None \<and> p_isEmpty empty_patch = None \<and>
   p_parentId empty_patch = None \<and> p_isIndented empty_patch = None \<and>
   p_position empty_patch = None \<and>
   (\<exists>n. \<forall>fuel \<ge> n. updateTodo fuel db_family 3 empty_patch =
            Some (db_family, Inr (Some (mk_todo 3 1 (Some 2) (Fin 2))))) \<and>
   updateTodo 2 db_family 3 empty_patch = Some (db_family, Inr (Some (mk_todo 3 1 (Some 2) (Fin 2))))"
proof -
  let ?ts = "todos db_family"
  have d: "distinct (map row_id ?ts)"
    by code_simp
  have h: "select_todo ?ts 3 = Some (mk_todo 3 1 (Some 2) (Fin 2))"
    by code_simp
  have e: "p_text empty_patch = None" "p_completed empty_patch = None" "p_isEmpty empty_patch = None"
    "p_parentId empty_patch = None" "p_isIndented empty_patch = None" "p_position empty_patch = None"
    by (simp_all add: empty_patch_def)
  have ac: "acyclic (parent_rel ?ts)"
    by (rule acyclicI_order[where f = "\<lambda>i. i"])
       (auto simp: parent_rel_def db_family_def mk_db_def mk_todo_def)
  have nc: "(x, x) \<notin> (parent_rel ?ts)\<^sup>+" for x
    using ac unfolding acyclic_def by (rule spec)
  have edge: "(3, 2) \<in> parent_rel ?ts"
    by (auto simp: parent_rel_def db_family_def mk_db_def mk_todo_def)
  have c1: "parent_id (mk_todo 3 1 (Some 2) (Fin 2)) = Some 2"
    by (simp add: mk_todo_def)
  have c2: "\<not> 2 \<notin> row_id ` set ?ts"
    by code_simp
  have c3: "\<not> (\<forall>pr \<in> set ?ts. row_id pr = 2 \<longrightarrow> list_id pr \<noteq> list_id (mk_todo 3 1 (Some 2) (Fin 2)))"
    by code_simp
  have c4: "(2, 3) \<notin> (parent_rel ?ts)\<^sup>+"
  proof
    assume "(2, 3) \<in> (parent_rel ?ts)\<^sup>+"
    from nc[of 2] trancl_into_trancl[OF this edge] show False
      by (rule notE)
  qed
  have c5: "\<not> chain_loops ?ts 2"
  proof
    assume "chain_loops ?ts 2"
    then obtain x where "(x, x) \<in> (parent_rel ?ts)\<^sup>+"
      unfolding chain_loops_def by (elim exE conjE)
    with nc[of x] show False
      by (rule notE)
  qed
  have c6: "position (mk_todo 3 1 (Some 2) (Fin 2)) \<noteq> Fin 1"
    by (simp add: mk_todo_def)
  have ne: "(2::int) \<noteq> 3"
    by simp
  from updateTodo_no_field[OF d h e]
  have r: "\<exists>n. \<forall>fuel \<ge> n. updateTodo fuel db_family 3 empty_patch =
            Some (db_family, Inr (Some (mk_todo 3 1 (Some 2) (Fin 2))))"
    unfolding c1 option.case if_not_P[OF ne] if_not_P[OF c2] if_not_P[OF c3] if_not_P[OF c4]
      if_not_P[OF c5] if_not_P[OF c6] .
  have v: "updateTodo 2 db_family 3 empty_patch = Some (db_family, Inr (Some (mk_todo 3 1 (Some 2) (Fin 2))))"
    by code_simp
  from d h e r v show ?thesis
    by (intro conjI)
qed

text \<open>
  Claim C7 as stated fails: the validation runs on the stored parent and position before
  the patch is looked at. In the store that the accepted batch of the section on the first
  item of a batch leaves, todo 2 is at position 1 with a parent, and \<^verbatim>\<open>updateTodo\<close>
  with the empty patch throws \<^verbatim>\<open>Cannot indent the first item in the list\<close>.
\<close>

theorem updateTodo_no_field_rejected:
  "updateTodo 2 db_indented_first 2 empty_patch = Some (db_indented_first, Inl CannotIndentFirst) \<and>
   select_todo (todos db_indented_first) 2 = Some (mk_todo 2 1 (Some 1) (Fin 1))"
  by code_simp

section \<open>The compaction helper\<close>

text \<open>
  Claim C8. With the ids of the table distinct (\<^verbatim>\<open>id INTEGER PRIMARY KEY\<close>),
  \<^verbatim>\<open>compactPositionsTx\<close> on list \<open>l\<close>, whatever the positions of its todos are:
  every row of the list is found afterwards under its id with every field but the position
  as before, and its position is one more than the number of rows of the list that had a
  smaller position, or the same position and a smaller id; a row of another list is found
  unchanged; the positions of the list are exactly \<open>1..N\<close>; the ids of the table, the
  lists and the settings are as before.
\<close>

theorem compactPositionsTx_renumbers:
  assumes "distinct (map row_id (todos d))"
  shows "(\<forall>r \<in> set (todos d).
            select_todo (todos (compactPositionsTx d l)) (row_id r) =
              Some (if list_id r = l
                    then r\<lparr>position :=
                            Fin (1 + int (length (filter
                              (\<lambda>q. list_id q = l \<and>
                                   (position q < position r \<or>
                                    (position q = position r \<and> row_id q < row_id r)))
                              (todos d))))\<rparr>
                    else r)) \<and>
         positions_contiguous (compactPositionsTx d l) l \<and>
         map row_id (todos (compactPositionsTx d l)) = map row_id (todos d) \<and>
         lists (compactPositionsTx d l) = lists d \<and> settings (compactPositionsTx d l) = settings d"
proof -
  let ?ids = "ordered_ids (todos d) l"
  let ?d' = "compactPositionsTx d l"
  have ts': "todos ?d' = map (compact_row ?ids) (todos d)"
    using assms by (rule compact_todos)
  have row: "select_todo (todos ?d') (row_id r) =
               Some (if list_id r = l
                     then r\<lparr>position := Fin (1 + int (rows_before (todos d) l r))\<rparr> else r)"
    if r: "r \<in> set (todos d)" for r
    unfolding ts' using select_todo_map[OF assms r, of "compact_row ?ids"]
      compact_row_cases[OF assms r, of l]
    by (simp add: add.commute)
  have "positions_contiguous ?d' l"
    using assms by (rule compact_contiguous)
  moreover have "map row_id (todos ?d') = map row_id (todos d)"
    unfolding ts' by (simp add: comp_def)
  moreover have "lists ?d' = lists d" "settings ?d' = settings d"
    unfolding compactPositionsTx_def by simp_all
  ultimately show ?thesis
    using row unfolding rows_before_def by blast
qed

text \<open>
  On a store where todos 3 and 2 of list 1 have the same position 3 and todo 3 comes first in
  the table, todo 2 gets position 1, todo 3 position 2 and todo 1 (position 7) position 3.
\<close>

theorem compactPositionsTx_renumbers_witness:
  "distinct (map row_id (todos db_unordered)) \<and>
   mk_todo 3 1 (Some 1) (Fin 3) \<in> set (todos db_unordered) \<and>
   mk_todo 2 1 None (Fin 3) \<in> set (todos db_unordered) \<and>
   select_todo (todos (compactPositionsTx db_unordered 1)) 3 = Some (mk_todo 3 1 (Some 1) (Fin 2)) \<and>
   select_todo (todos (compactPositionsTx db_unordered 1)) 2 = Some (mk_todo 2 1 None (Fin 1)) \<and>
   positions_contiguous (compactPositionsTx db_unordered 1) 1 \<and>
   map row_id (todos (compactPositionsTx db_unordered 1)) = map row_id (todos db_unordered) \<and>
   lists (compactPositionsTx db_unordered 1) = lists db_unordered \<and>
   settings (compactPositionsTx db_unordered 1) = settings db_unordered \<and>
   compactPositionsTx db_unordered 1 =
     mk_db [mk_todo 1 1 None (Fin 3), mk_todo 3 1 (Some 1) (Fin 2), mk_todo 2 1 None (Fin 1),
            mk_todo 4 2 None (Fin 9)]"
proof -
  let ?before = "\<lambda>r. length (filter
      (\<lambda>q. list_id q = 1 \<and>
           (position q < position r \<or> (position q = position r \<and> row_id q < row_id r)))
      (todos db_unordered))"
  have h: "distinct (map row_id (todos db_unordered))"
    by code_simp
  have m3: "mk_todo 3 1 (Some 1) (Fin 3) \<in> set (todos db_unordered)"
    and m2: "mk_todo 2 1 None (Fin 3) \<in> set (todos db_unordered)"
    by (simp_all add: db_unordered_def mk_db_def)
  have b3: "?before (mk_todo 3 1 (Some 1) (Fin 3)) = 1"
    and b2: "?before (mk_todo 2 1 None (Fin 3)) = 0"
    by (simp_all add: db_unordered_def mk_db_def mk_todo_def)
  have e: "compactPositionsTx db_unordered 1 =
     mk_db [mk_todo 1 1 None (Fin 3), mk_todo 3 1 (Some 1) (Fin 2), mk_todo 2 1 None (Fin 1),
            mk_todo 4 2 None (Fin 9)]"
    by code_simp
  note t = compactPositionsTx_renumbers[OF h, of 1]
  from t m3 have "select_todo (todos (compactPositionsTx db_unordered 1))
                    (row_id (mk_todo 3 1 (Some 1) (Fin 3))) =
                  Some (if list_id (mk_todo 3 1 (Some 1) (Fin 3)) = 1
                        then (mk_todo 3 1 (Some 1) (Fin 3))
                               \<lparr>position := Fin (1 + int (?before (mk_todo 3 1 (Some 1) (Fin 3))))\<rparr>
                        else mk_todo 3 1 (Some 1) (Fin 3))"
    by blast
  then have s3: "select_todo (todos (compactPositionsTx db_unordered 1)) 3 =
                   Some (mk_todo 3 1 (Some 1) (Fin 2))"
    unfolding b3 by (simp add: mk_todo_def)
  from t m2 have "select_todo (todos (compactPositionsTx db_unordered 1))
                    (row_id (mk_todo 2 1 None (Fin 3))) =
                  Some (if list_id (mk_todo 2 1 None (Fin 3)) = 1
                        then (mk_todo 2 1 None (Fin 3))
                               \<lparr>position := Fin (1 + int (?before (mk_todo 2 1 None (Fin 3))))\<rparr>
                        else mk_todo 2 1 None (Fin 3))"
    by blast
  then have s2: "select_todo (todos (compactPositionsTx db_unordered 1)) 2 =
                   Some (mk_todo 2 1 None (Fin 1))"
    unfolding b2 by (simp add: mk_todo_def)
  from t have rest: "positions_contiguous (compactPositionsTx db_unordered 1) 1"
    "map row_id (todos (compactPositionsTx db_unordered 1)) = map row_id (todos db_unordered)"
    "lists (compactPositionsTx db_unordered 1) = lists db_unordered"
    "settings (compactPositionsTx db_unordered 1) = settings db_unordered"
    by blast+
  from h m3 m2 s3 s2 rest e show ?thesis
    by (intro conjI)
qed

section \<open>updateTodo and the list of a todo\<close>

text \<open>
  Claim C9. Whatever the patch is, and whatever its \<^verbatim>\<open>listId\<close> property is, a call of
  the engine's \<^verbatim>\<open>updateTodo\<close> that ends leaves the \<^verbatim>\<open>list_id\<close> of every row of the
  table as it was, and a row it returns has the \<^verbatim>\<open>list_id\<close> the todo had before. The
  client's fallback, whatever the object it is given, leaves the \<^verbatim>\<open>listId\<close> of every
  todo of its mirror as it was.
\<close>

theorem updateTodo_keeps_listId:
  assumes "updateTodo fuel d tid p = Some (d', out)"
    and "fallback_updateTodo mirror i spread = Inr mirror'"
  shows "map list_id (todos d') = map list_id (todos d) \<and>
         map row_id (todos d') = map row_id (todos d) \<and>
         (\<forall>row. out = Inr (Some row) \<longrightarrow>
            (\<exists>old. select_todo (todos d) tid = Some old \<and> list_id row = list_id old)) \<and>
         map list_id mirror' = map list_id mirror"
proof -
  have "replace_first (\<lambda>t. row_id t = i)
          (\<lambda>original. (spread original)\<lparr>list_id := list_id original\<rparr>) mirror = Some mirror'"
    using assms(2) unfolding fallback_updateTodo_def by (simp split: option.splits)
  then have m: "map list_id mirror' = map list_id mirror"
    by (rule replace_first_list_ids[rotated]) simp
  show ?thesis
  proof (cases out)
    case (Inl e)
    with assms(1) have "d' = d"
      unfolding updateTodo_def by (auto dest: transaction_Inl)
    with Inl m show ?thesis
      by simp
  next
    case (Inr v)
    with assms(1) have "updateTodo_tx fuel d tid p = Some (Returned v d')"
      unfolding updateTodo_def by (auto dest: transaction_Inr)
    from updateTodo_tx_Returned[OF this] Inr m show ?thesis
      by (auto simp: update_todo_list_ids)
  qed
qed

theorem updateTodo_keeps_listId_witness:
  "updateTodo 3 db_two_lists 2 patch_with_listId =
     Some (mk_db [mk_todo 1 1 None (Fin 1),
                  (mk_todo 2 1 (Some 1) (Fin 5))\<lparr>todo_text := ''moved''\<rparr>,
                  mk_todo 3 2 None (Fin 1)],
           Inr (Some ((mk_todo 2 1 (Some 1) (Fin 5))\<lparr>todo_text := ''moved''\<rparr>))) \<and>
   p_listId patch_with_listId = Some 2 \<and>
   fallback_updateTodo (todos db_two_lists) 2 (\<lambda>t. t\<lparr>todo_text := ''moved'', list_id := 2\<rparr>) =
     Inr [mk_todo 1 1 None (Fin 1), (mk_todo 2 1 None (Fin 2))\<lparr>todo_text := ''moved''\<rparr>,
          mk_todo 3 2 None (Fin 1)] \<and>
   map list_id (todos (mk_db [mk_todo 1 1 None (Fin 1),
                  (mk_todo 2 1 (Some 1) (Fin 5))\<lparr>todo_text := ''moved''\<rparr>,
                  mk_todo 3 2 None (Fin 1)])) = map list_id (todos db_two_lists) \<and>
   map list_id [mk_todo 1 1 None (Fin 1), (mk_todo 2 1 None (Fin 2))\<lparr>todo_text := ''moved''\<rparr>,
          mk_todo 3 2 None (Fin 1)] = map list_id (todos db_two_lists)"
proof -
  have h: "updateTodo 3 db_two_lists 2 patch_with_listId =
     Some (mk_db [mk_todo 1 1 None (Fin 1),
                  (mk_todo 2 1 (Some 1) (Fin 5))\<lparr>todo_text := ''moved''\<rparr>,
                  mk_todo 3 2 None (Fin 1)],
           Inr (Some ((mk_todo 2 1 (Some 1) (Fin 5))\<lparr>todo_text := ''moved''\<rparr>)))"
    by code_simp
  have f: "fallback_updateTodo (todos db_two_lists) 2 (\<lambda>t. t\<lparr>todo_text := ''moved'', list_id := 2\<rparr>) =
     Inr [mk_todo 1 1 None (Fin 1), (mk_todo 2 1 None (Fin 2))\<lparr>todo_text := ''moved''\<rparr>,
          mk_todo 3 2 None (Fin 1)]"
    by code_simp
  have l: "p_listId patch_with_listId = Some 2"
    by (simp add: patch_with_listId_def)
  from updateTodo_keeps_listId[OF h f] h f l show ?thesis
    by (intro conjI) blast+
qed

section \<open>The position createTodo assigns\<close>




end
